theory Spec2Isabelle
  imports Complex_Main
begin

section \<open>Box geometry of the flat-NUTS sampler (\<^verbatim>\<open>mininest/flatnuts.py\<close>)\<close>

text \<open>
  The program works on one-dimensional numpy arrays of floats, all of one shape.  They are
  modelled as lists of reals: the arithmetic is the exact one, and the place where the
  program relies on IEEE special values (the division by a zero direction component in
  \<^verbatim>\<open>nearest_box_intersection_line\<close>) is written out as an absent value.  Exceptions
  are values of the type \<open>error\<close>; a function that can raise returns \<open>error + 'a\<close>.
  Printing and plotting have no effect on the state and are left out.
\<close>

datatype error = AssertionError | KeyError | ValueError | IndexError

type_synonym vec = "real list"

definition vadd :: "vec \<Rightarrow> vec \<Rightarrow> vec" where
  "vadd a b = map2 (\<lambda>x y. x + y) a b"

definition vsub :: "vec \<Rightarrow> vec \<Rightarrow> vec" where
  "vsub a b = map2 (\<lambda>x y. x - y) a b"

definition vmul :: "vec \<Rightarrow> vec \<Rightarrow> vec" where
  "vmul a b = map2 (\<lambda>x y. x * y) a b"

definition smul :: "real \<Rightarrow> vec \<Rightarrow> vec" where
  "smul c a = map (\<lambda>x. c * x) a"

definition vneg :: "vec \<Rightarrow> vec" where
  "vneg a = map uminus a"

text \<open>
  \<^verbatim>\<open>np.isclose(a, b)\<close> with numpy's default tolerances
  \<^verbatim>\<open>rtol=1e-05, atol=1e-08\<close>, and \<^verbatim>\<open>np.allclose\<close> over two arrays.
\<close>

definition isclose :: "real \<Rightarrow> real \<Rightarrow> bool" where
  "isclose a b \<longleftrightarrow> \<bar>a - b\<bar> \<le> 1 / 100000000 + 1 / 100000 * \<bar>b\<bar>"

definition allclose :: "vec \<Rightarrow> vec \<Rightarrow> bool" where
  "allclose a b \<longleftrightarrow> list_all2 isclose a b"

subsection \<open>\<^verbatim>\<open>nearest_box_intersection_line\<close>\<close>

text \<open>
  Line 83 to 95 of the source, for one axis: \<^verbatim>\<open>m = 1./ray_direction\<close>,
  \<^verbatim>\<open>n = m * (ray_origin - 0.5)\<close>, \<^verbatim>\<open>k = np.abs(m) * 0.5\<close>, and
  \<^verbatim>\<open>t2 = -n + k\<close> (forward) or \<^verbatim>\<open>t1 = -n - k\<close> (backward).  On an axis whose
  direction component is zero, \<open>m\<close> is an infinity, and the candidate is an infinity of the
  sign that \<^verbatim>\<open>np.nanmin\<close>/\<^verbatim>\<open>np.nanmax\<close> never prefers to a finite value, or NaN,
  which they skip: such an axis gives no candidate, \<open>None\<close>.
\<close>

definition axis_candidate :: "bool \<Rightarrow> real \<Rightarrow> real \<Rightarrow> real option" where
  "axis_candidate fwd o_i d_i =
     (if d_i = 0 then None
      else let m = 1 / d_i; n = m * (o_i - 1 / 2); k = \<bar>m\<bar> * (1 / 2)
           in Some (if fwd then - n + k else - n - k))"

definition finite_candidates :: "real option list \<Rightarrow> real list" where
  "finite_candidates ts = map the (filter (\<lambda>t. t \<noteq> None) ts)"

text \<open>\<^verbatim>\<open>np.nanmin\<close> (forward) and \<^verbatim>\<open>np.nanmax\<close> (backward) over the candidates.\<close>

definition nan_extremum :: "bool \<Rightarrow> real option list \<Rightarrow> real option" where
  "nan_extremum fwd ts =
     (case finite_candidates ts of
        [] \<Rightarrow> None
      | c # cs \<Rightarrow> Some (if fwd then Min (set (c # cs)) else Max (set (c # cs))))"

definition eps :: real where
  "eps = 1 / 1000000"

text \<open>Lines 101 and 102: \<^verbatim>\<open>pF[pF < 0] = 0\<close>, then \<^verbatim>\<open>pF[pF > 1] = 1\<close>.\<close>

definition clamp01 :: "real \<Rightarrow> real" where
  "clamp01 p = (let q = (if p < 0 then 0 else p) in if q > 1 then 1 else q)"

text \<open>
  The result is \<open>(pF, tF, iF)\<close>.  The two assertions on the origin come first.  Arrays
  of different lengths do not broadcast (\<open>ValueError\<close>), an empty array has no minimum
  (\<open>ValueError\<close>), and when no axis gives a finite candidate \<open>tF\<close> is infinite or NaN,
  \<open>pF\<close> is NaN and the assertion of line 99 fails.
\<close>

definition nearest_box_intersection_line ::
    "vec \<Rightarrow> vec \<Rightarrow> bool \<Rightarrow> error + (vec \<times> real \<times> nat list)" where
  "nearest_box_intersection_line ray_origin ray_direction fwd =
     (if \<not> list_all (\<lambda>x. 0 \<le> x) ray_origin then Inl AssertionError
      else if \<not> list_all (\<lambda>x. x \<le> 1) ray_origin then Inl AssertionError
      else if length ray_origin \<noteq> length ray_direction then Inl ValueError
      else if ray_origin = [] then Inl ValueError
      else
        let ts = map2 (axis_candidate fwd) ray_origin ray_direction in
        case nan_extremum fwd ts of
          None \<Rightarrow> Inl AssertionError
        | Some tF \<Rightarrow>
            let iF = filter (\<lambda>i. ts ! i = Some tF) [0..<length ts];
                pF = vadd ray_origin (smul tF ray_direction)
            in if \<not> list_all (\<lambda>p. - eps \<le> p) pF then Inl AssertionError
               else if \<not> list_all (\<lambda>p. p \<le> 1 + eps) pF then Inl AssertionError
               else Inr (map clamp01 pF, tF, iF))"

subsection \<open>\<^verbatim>\<open>linear_steps_with_reflection\<close>\<close>

text \<open>
  An in-place update at an index array, \<^verbatim>\<open>xs[i] = f(xs[i])\<close> for the axes in \<open>i\<close>
  (the indices that \<^verbatim>\<open>np.where\<close> returns are distinct and in range).
\<close>

definition update_at :: "nat list \<Rightarrow> (nat \<Rightarrow> 'a \<Rightarrow> 'a) \<Rightarrow> 'a list \<Rightarrow> 'a list" where
  "update_at i f xs = map (\<lambda>a. if a \<in> set i then f a (xs ! a) else xs ! a) [0..<length xs]"

text \<open>
  The \<^verbatim>\<open>while True\<close> loop of lines 130 to 164.  Its state is \<open>ray_origin\<close>,
  \<open>ray_direction\<close>, \<open>tleft\<close> and the array \<open>reflected\<close>, which the source creates only
  when \<open>wrapped_dims\<close> is given and which the loop ignores otherwise.  Reading
  \<^verbatim>\<open>wrapped_dims[i]\<close> beyond the end of \<open>wrapped_dims\<close> raises \<open>IndexError\<close>.

  The comparisons \<^verbatim>\<open>tleft <= t\<close> and the assertions are decided here on exact reals.  In
  double precision a leg that ends on a face can fail the assertions of lines 136 and 137 by
  the last bit, and \<^verbatim>\<open>tleft -= t\<close> can leave \<open>tleft\<close> as it is; such runs of the
  program are not runs of this function.  The statements below on the closure of the cube
  and on the step sampler are therefore about a call that returns, or pass its error on.
\<close>

function lswr_loop ::
    "vec \<Rightarrow> vec \<Rightarrow> real \<Rightarrow> bool list option \<Rightarrow> bool list \<Rightarrow> error + (vec \<times> vec)" where
  "lswr_loop ray_origin ray_direction tleft wrapped_dims reflected =
     (case nearest_box_intersection_line ray_origin ray_direction True of
        Inl e \<Rightarrow> Inl e
      | Inr (p, t, i) \<Rightarrow>
          if \<not> 0 \<le> t then Inl AssertionError
          else if tleft \<le> t then
            (let q = vadd ray_origin (smul tleft ray_direction)
             in if \<not> list_all (\<lambda>x. 0 \<le> x) q then Inl AssertionError
                else if \<not> list_all (\<lambda>x. x \<le> 1) q then Inl AssertionError
                else Inr (q, ray_direction))
          else
            (case wrapped_dims of
               None \<Rightarrow>
                 lswr_loop p (update_at i (\<lambda>a d. d * (- 1)) ray_direction) (tleft - t)
                   None reflected
             | Some w \<Rightarrow>
                 if list_ex (\<lambda>a. length w \<le> a) i then Inl IndexError
                 else if list_ex (\<lambda>a. reflected ! a \<and> w ! a) i then Inr (p, ray_direction)
                 else if \<not> list_all (\<lambda>a. isclose (p ! a) 1 \<or> isclose (p ! a) 0) i
                   then Inl AssertionError
                 else
                   lswr_loop (update_at i (\<lambda>a x. if w ! a then 1 - x else x) p)
                     (update_at i (\<lambda>a d. d * (if w ! a then 1 else - 1)) ray_direction)
                     (tleft - t) (Some w) (update_at i (\<lambda>a r. True) reflected)))"
  by pat_completeness auto

text \<open>
  The function itself (lines 120 to 129).  For a negative \<open>t\<close> the source calls itself with
  the negated direction and \<open>- t\<close>, which is positive, so that the inner call is the loop;
  it passes no \<open>wrapped_dims\<close> on.
\<close>

definition linear_steps_with_reflection ::
    "vec \<Rightarrow> vec \<Rightarrow> real \<Rightarrow> bool list option \<Rightarrow> error + (vec \<times> vec)" where
  "linear_steps_with_reflection ray_origin ray_direction t wrapped_dims =
     (if t = 0 then Inr (ray_origin, ray_direction)
      else if t < 0 then
        (case lswr_loop ray_origin (vneg ray_direction) (- t) None [] of
           Inl e \<Rightarrow> Inl e
         | Inr (new_point, new_direction) \<Rightarrow> Inr (new_point, vneg new_direction))
      else lswr_loop ray_origin ray_direction t wrapped_dims
             (replicate (length ray_origin) False))"

subsection \<open>Vector helpers\<close>

text \<open>\<^verbatim>\<open>numpy.linalg.norm\<close> of a one-dimensional array.\<close>

definition norm_vec :: "vec \<Rightarrow> real" where
  "norm_vec v = sqrt (\<Sum>x\<leftarrow>v. x\<^sup>2)"

text \<open>\<^verbatim>\<open>reflect(v, normal)\<close> is \<^verbatim>\<open>v - 2 * (normal * v).sum() * normal\<close>.\<close>

definition reflect :: "vec \<Rightarrow> vec \<Rightarrow> vec" where
  "reflect v normal = vsub v (smul (2 * sum_list (vmul normal v)) normal)"

text \<open>\<^verbatim>\<open>angle(a, b)\<close> is the dot product \<^verbatim>\<open>(a*b).sum()\<close>.\<close>

definition angle :: "vec \<Rightarrow> vec \<Rightarrow> real" where
  "angle a b = sum_list (vmul a b)"

definition extrapolate_ahead :: "int \<Rightarrow> vec \<Rightarrow> vec \<Rightarrow> error + (vec \<times> vec)" where
  "extrapolate_ahead di xj vj = linear_steps_with_reflection xj vj (real_of_int di) None"

section \<open>The sampling path\<close>

text \<open>
  A path point is the tuple \<open>(i, x, v, L)\<close>; \<^verbatim>\<open>SamplingPath.points\<close> is a Python list,
  extended at its end by \<^verbatim>\<open>add\<close>.  The objects that wrap a path
  (\<^verbatim>\<open>ContourSamplingPath\<close>, \<^verbatim>\<open>StepSampler\<close>) keep a reference to this same list in
  their own \<^verbatim>\<open>points\<close> attribute; the model has the one list, in the path.
\<close>

type_synonym point = "int \<times> vec \<times> vec \<times> real"

record samplingpath =
  points :: "point list"
  fwd_possible :: bool
  rwd_possible :: bool

definition add :: "samplingpath \<Rightarrow> int \<Rightarrow> vec \<Rightarrow> vec \<Rightarrow> real \<Rightarrow> samplingpath" where
  "add sp i x0 v0 L0 = sp\<lparr>points := points sp @ [(i, x0, v0, L0)]\<rparr>"

definition reset :: "vec \<Rightarrow> vec \<Rightarrow> real \<Rightarrow> samplingpath" where
  "reset x0 v0 L0 = \<lparr>points = [(0, x0, v0, L0)], fwd_possible = True, rwd_possible = True\<rparr>"

text \<open>
  \<^verbatim>\<open>max(self.points)\<close> and \<^verbatim>\<open>min(self.points)\<close> compare the tuples, first by their
  index.  The indices of a path are distinct (each theorem below that depends on it says so),
  so the index decides; among equal elements Python keeps the first.  On an empty list both
  raise \<open>ValueError\<close>, here \<open>None\<close>.
\<close>

fun max_point :: "point list \<Rightarrow> point option" where
  "max_point [] = None"
| "max_point (q # qs) = Some (fold (\<lambda>r m. if fst m < fst r then r else m) qs q)"

fun min_point :: "point list \<Rightarrow> point option" where
  "min_point [] = None"
| "min_point (q # qs) = Some (fold (\<lambda>r m. if fst r < fst m then r else m) qs q)"

text \<open>
  \<^verbatim>\<open>SamplingPath.interpolate\<close> returns \<open>(x, v, L, on_path)\<close>, where \<open>L\<close> is \<open>None\<close> for
  a point that was not evaluated.
\<close>

definition interpolate ::
    "samplingpath \<Rightarrow> int \<Rightarrow> error + (vec \<times> vec \<times> real option \<times> bool)" where
  "interpolate sp i =
     (let points_before = filter (\<lambda>(j, xj, vj, Lj). j \<le> i) (points sp);
          points_after = filter (\<lambda>(j, xj, vj, Lj). j \<ge> i) (points sp)
      in if points_after = [] \<and> \<not> fwd_possible sp then
           (case max_point points_before of
              None \<Rightarrow> Inl ValueError
            | Some (j, xj, vj, Lj) \<Rightarrow> Inr (xj, vj, Some Lj, False))
         else if points_before = [] \<and> \<not> rwd_possible sp then
           (case min_point points_after of
              None \<Rightarrow> Inl ValueError
            | Some (k, xk, vk, Lk) \<Rightarrow> Inr (xk, vk, Some Lk, False))
         else if points_before = [] \<or> points_after = [] then Inl KeyError
         else
           (case (max_point points_before, min_point points_after) of
              (Some (j, xj, vj, Lj), Some (k, xk, vk, Lk)) \<Rightarrow>
                if j = i then Inr (xj, vj, Some Lj, True)
                else if k = i then Inl AssertionError
                else
                  (case extrapolate_ahead (i - j) xj vj of
                     Inl e \<Rightarrow> Inl e
                   | Inr (xl1, vj1) \<Rightarrow>
                       (case extrapolate_ahead (i - k) xk vk of
                          Inl e \<Rightarrow> Inl e
                        | Inr (xl2, vj2) \<Rightarrow>
                            if \<not> allclose xl1 xl2 then Inl AssertionError
                            else if \<not> allclose vj1 vj2 then Inl AssertionError
                            else Inr (xl1, vj, None, True)))
            | _ \<Rightarrow> Inl ValueError))"

definition extrapolate :: "samplingpath \<Rightarrow> int \<Rightarrow> error + (vec \<times> vec)" where
  "extrapolate sp i =
     (if i \<ge> 0 then
        (case max_point (points sp) of
           None \<Rightarrow> Inl ValueError
         | Some (j, xj, vj, Lj) \<Rightarrow>
             let deltai = i - j
             in if \<not> deltai > 0 then Inl AssertionError else extrapolate_ahead deltai xj vj)
      else
        (case min_point (points sp) of
           None \<Rightarrow> Inl ValueError
         | Some (j, xj, vj, Lj) \<Rightarrow>
             let deltai = i - j
             in if \<not> deltai < 0 then Inl AssertionError else extrapolate_ahead deltai xj vj))"

section \<open>The contour sampling path\<close>

text \<open>
  The transform and the likelihood are callables of the caller, taken as total functions.
  The region is read by \<^verbatim>\<open>gradient\<close> only, which is a parameter of the functions that
  call it (see \<open>reverse\<close>).
\<close>

record contourpath =
  samplingpath :: samplingpath
  transform :: "vec \<Rightarrow> vec"
  likelihood :: "vec \<Rightarrow> real"
  Lmin :: real
  ncalls :: nat

definition add_if_above_threshold ::
    "contourpath \<Rightarrow> int \<Rightarrow> vec \<Rightarrow> vec \<Rightarrow> bool \<times> contourpath" where
  "add_if_above_threshold cp i x v =
     (let p = transform cp x;
          L = likelihood cp p;
          cp1 = cp\<lparr>ncalls := ncalls cp + 1\<rparr>
      in if L > Lmin cp1
         then (True, cp1\<lparr>samplingpath := add (samplingpath cp1) i x v L\<rparr>)
         else (False, cp1))"

section \<open>The step sampler\<close>

record stepsampler =
  contourpath :: contourpath
  nreflections :: nat

text \<open>
  \<^verbatim>\<open>StepSampler.reverse\<close>.  \<^verbatim>\<open>ContourSamplingPath.gradient\<close> computes the normal from the
  region, an object of the caller: it is the parameter \<open>gradient\<close>, which may raise (its
  assertions), return no normal, or return one.
\<close>

definition reverse ::
    "(vec \<Rightarrow> vec \<Rightarrow> error + vec option) \<Rightarrow> vec \<Rightarrow> vec \<Rightarrow> error + vec" where
  "reverse gradient reflpoint v =
     (case gradient reflpoint v of
        Inl e \<Rightarrow> Inl e
      | Inr None \<Rightarrow> Inr (vneg v)
      | Inr (Some normal) \<Rightarrow>
          if length normal \<noteq> length v then Inl ValueError
          else
            let vnew = vsub v (smul (2 * angle normal v) normal)
            in if \<not> isclose (norm_vec vnew) (norm_vec v) then Inl AssertionError
               else Inr vnew)"

text \<open>
  \<^verbatim>\<open>StepSampler.expand_onestep\<close>, called with \<^verbatim>\<open>plot=False\<close>: the plotting calls
  of lines 509 and 518, and those of \<^verbatim>\<open>reverse\<close> and \<^verbatim>\<open>gradient\<close>, are not made.
  The result is the returned flag and the new state.
\<close>

definition expand_onestep ::
    "(vec \<Rightarrow> vec \<Rightarrow> error + vec option) \<Rightarrow> stepsampler \<Rightarrow> bool \<Rightarrow> error + (bool \<times> stepsampler)" where
  "expand_onestep gradient s fwd =
     (case (if fwd then max_point (points (samplingpath (contourpath s)))
            else min_point (points (samplingpath (contourpath s)))) of
        None \<Rightarrow> Inl ValueError
      | Some (starti, startx, startv, startL) \<Rightarrow>
          let sign = (if fwd then (1::int) else - 1);
              j = starti + 1 * sign
          in (case extrapolate (samplingpath (contourpath s)) j of
               Inl e \<Rightarrow> Inl e
             | Inr (xj, v) \<Rightarrow>
                 (case add_if_above_threshold (contourpath s) j xj v of
                    (True, cp1) \<Rightarrow> Inr (True, s\<lparr>contourpath := cp1\<rparr>)
                  | (False, cp1) \<Rightarrow>
                      (case reverse gradient xj (smul (real_of_int sign) v) of
                         Inl e \<Rightarrow> Inl e
                       | Inr vr \<Rightarrow>
                           (case extrapolate_ahead sign xj (smul (real_of_int sign) vr) of
                              Inl e \<Rightarrow> Inl e
                            | Inr (xk, vk) \<Rightarrow>
                                let s1 = s\<lparr>contourpath := cp1,
                                           nreflections := nreflections s + 1\<rparr>
                                in (case add_if_above_threshold cp1 j xk vk of
                                      (True, cp2) \<Rightarrow> Inr (True, s1\<lparr>contourpath := cp2\<rparr>)
                                    | (False, cp2) \<Rightarrow>
                                        let sp = samplingpath cp2;
                                            sp' = (if fwd then sp\<lparr>fwd_possible := False\<rparr>
                                                   else sp\<lparr>rwd_possible := False\<rparr>)
                                        in Inr (False,
                                             s1\<lparr>contourpath := cp2\<lparr>samplingpath := sp'\<rparr>\<rparr>)))))))"

section \<open>The final draw of the NUTS sampler\<close>


section \<open>Auxiliary notions for the proofs\<close>

text \<open>
  The forward candidate of one axis with a nonzero direction component: the distance, in
  units of the direction, to the face of the cube that the ray travels towards.
\<close>

definition crossing :: "real \<Rightarrow> real \<Rightarrow> real" where
  "crossing o_i d_i = the (axis_candidate True o_i d_i)"

text \<open>
  The number of faces that one axis still meets before the remaining distance is used up.
  Its sum over the axes decreases in every round of the loop of
  \<^verbatim>\<open>linear_steps_with_reflection\<close>.
\<close>

definition bounces_left :: "real \<Rightarrow> real \<Rightarrow> real \<Rightarrow> nat" where
  "bounces_left tleft x d = (if d = 0 then 0 else nat \<lceil>(tleft - crossing x d) * \<bar>d\<bar>\<rceil>)"

text \<open>The closed unit cube.\<close>

definition in_cube :: "vec \<Rightarrow> bool" where
  "in_cube x \<longleftrightarrow> list_all (\<lambda>c. 0 \<le> c \<and> c \<le> 1) x"

text \<open>
  The loop of \<^verbatim>\<open>linear_steps_with_reflection\<close> without periodic axes, and the sign flip
  \<^verbatim>\<open>ray_direction[i] *= -1\<close> of its line 145.
\<close>

definition walk :: "vec \<Rightarrow> vec \<Rightarrow> real \<Rightarrow> error + (vec \<times> vec)" where
  "walk x d tleft = lswr_loop x d tleft None []"

definition flip_axes :: "nat list \<Rightarrow> vec \<Rightarrow> vec" where
  "flip_axes i d = update_at i (\<lambda>a c. c * (- 1)) d"

text \<open>
  No axis is on the face that it travels towards; and the points strictly inside the cube.
\<close>

definition heading_in :: "vec \<Rightarrow> vec \<Rightarrow> bool" where
  "heading_in x d \<longleftrightarrow> (\<forall>a<length x. d ! a \<noteq> 0 \<longrightarrow> 0 < crossing (x ! a) (d ! a))"

definition interior :: "vec \<Rightarrow> bool" where
  "interior x \<longleftrightarrow> list_all (\<lambda>c. 0 < c \<and> c < 1) x"

text \<open>
  A path as the samplers build it: the indices are distinct and the starting point \<open>0\<close> is
  there.
\<close>

definition well_formed :: "samplingpath \<Rightarrow> bool" where
  "well_formed sp \<longleftrightarrow>
     distinct (map fst (points sp)) \<and> list_ex (\<lambda>q. fst q = 0) (points sp)"

text \<open>
  The contract of \<^verbatim>\<open>gradient\<close>: it does not raise, and a normal that it returns has the
  dimension of the direction and unit length (the source divides by the norm and checks
  \<^verbatim>\<open>isunitlength\<close>).
\<close>

definition unit_normals :: "(vec \<Rightarrow> vec \<Rightarrow> error + vec option) \<Rightarrow> bool" where
  "unit_normals gradient \<longleftrightarrow>
     (\<forall>p v. case gradient p v of
              Inl e \<Rightarrow> False
            | Inr None \<Rightarrow> True
            | Inr (Some n) \<Rightarrow> length n = length v \<and> norm_vec n = 1)"

text \<open>
  The direction that \<^verbatim>\<open>StepSampler.reverse\<close> returns when its assertions hold: the
  mirror image \<open>v - 2 (normal \<cdot> v) normal\<close> of \<open>v\<close> when \<^verbatim>\<open>gradient\<close> gives a normal,
  and \<open>- v\<close> when it gives none.
\<close>

definition reflected_direction ::
    "(vec \<Rightarrow> vec \<Rightarrow> error + vec option) \<Rightarrow> vec \<Rightarrow> vec \<Rightarrow> vec" where
  "reflected_direction gradient reflpoint v =
     (case gradient reflpoint v of
        Inr (Some normal) \<Rightarrow> reflect v normal
      | _ \<Rightarrow> vneg v)"

text \<open>Two concrete states for the worked cases below.\<close>

definition example_contour :: contourpath where
  "example_contour =
     \<lparr>samplingpath = reset [1 / 4] [1 / 4] 1, transform = id, likelihood = sum_list,
      Lmin = 1 / 2, ncalls = 0\<rparr>"

definition example_path :: samplingpath where
  "example_path =
     \<lparr>points = [(0, [1 / 2], [3 / 8], 1), (3, [3 / 8], [- (3 / 8)], 1)],
      fwd_possible = True, rwd_possible = True\<rparr>"

definition example_sampler :: stepsampler where
  "example_sampler = \<lparr>contourpath = example_contour, nreflections = 0\<rparr>"

definition example_gradient :: "vec \<Rightarrow> vec \<Rightarrow> error + vec option" where
  "example_gradient reflpoint v =
     Inr (if v = [] then None else Some (1 # replicate (length v - 1) 0))"

section \<open>Termination of the reflecting traversal\<close>

lemma crossing_pos: "0 < d \<Longrightarrow> crossing x d = (1 - x) / d"
  by (simp add: crossing_def axis_candidate_def Let_def field_simps)

lemma crossing_neg: "d < 0 \<Longrightarrow> crossing x d = x / (- d)"
  by (simp add: crossing_def axis_candidate_def Let_def field_simps)

lemma axis_candidate_fwd: "axis_candidate True x d = (if d = 0 then None else Some (crossing x d))"
  by (simp add: crossing_def axis_candidate_def Let_def)

lemma crossing_nonneg: "d \<noteq> 0 \<Longrightarrow> 0 \<le> x \<Longrightarrow> x \<le> 1 \<Longrightarrow> 0 \<le> crossing x d"
  by (cases "0 < d") (simp_all add: crossing_pos crossing_neg field_simps)

lemma nth_vadd: "a < length x \<Longrightarrow> a < length y \<Longrightarrow> vadd x y ! a = x ! a + y ! a"
  by (simp add: vadd_def)

lemma nth_smul: "a < length x \<Longrightarrow> smul c x ! a = c * x ! a"
  by (simp add: smul_def)

lemma length_vadd: "length (vadd x y) = min (length x) (length y)"
  by (simp add: vadd_def)

lemma length_smul: "length (smul c x) = length x"
  by (simp add: smul_def)

lemma length_update_at: "length (update_at i f xs) = length xs"
  by (simp add: update_at_def)

lemma nth_update_at:
  "a < length xs \<Longrightarrow> update_at i f xs ! a = (if a \<in> set i then f a (xs ! a) else xs ! a)"
  by (simp add: update_at_def)

lemma set_finite_candidates:
  "set (finite_candidates ts) = {c. Some c \<in> set ts}"
  by (force simp: finite_candidates_def image_iff)

lemma map2_conv_nth:
  "length x = length d \<Longrightarrow> map2 f x d = map (\<lambda>a. f (x ! a) (d ! a)) [0..<length x]"
  by (rule nth_equalityI) simp_all

lemma candidates_fwd_iff:
  assumes "length x = length d"
  shows "Some c \<in> set (map2 (axis_candidate True) x d) \<longleftrightarrow>
         (\<exists>a<length x. d ! a \<noteq> 0 \<and> crossing (x ! a) (d ! a) = c)"
proof -
  have "Some c \<in> set (map2 (axis_candidate True) x d) \<longleftrightarrow>
        (\<exists>a<length x. axis_candidate True (x ! a) (d ! a) = Some c)"
    unfolding map2_conv_nth[OF assms] by (force simp: image_iff)
  also have "\<dots> \<longleftrightarrow> (\<exists>a<length x. d ! a \<noteq> 0 \<and> crossing (x ! a) (d ! a) = c)"
    by (auto simp: axis_candidate_fwd)
  finally show ?thesis .
qed

lemma nan_extremum_fwd_Some:
  assumes "nan_extremum True ts = Some t"
  shows "Some t \<in> set ts" "\<forall>c. Some c \<in> set ts \<longrightarrow> t \<le> c"
proof -
  from assms obtain c cs where cs: "finite_candidates ts = c # cs" and t: "t = Min (set (c # cs))"
    by (auto simp: nan_extremum_def split: list.splits)
  have S: "set (c # cs) = {c. Some c \<in> set ts}"
    using set_finite_candidates[of ts] cs by simp
  have "t \<in> set (c # cs)" unfolding t by (rule Min_in) simp_all
  then show "Some t \<in> set ts" unfolding S by simp
  show "\<forall>c. Some c \<in> set ts \<longrightarrow> t \<le> c"
  proof (intro allI impI)
    fix c' assume "Some c' \<in> set ts"
    then have "c' \<in> set (c # cs)" unfolding S by simp
    then show "t \<le> c'" unfolding t by (intro Min_le) simp_all
  qed
qed

lemma nbil_fwd_InrD:
  assumes "nearest_box_intersection_line x d True = Inr (p, t, i)"
  shows "length x = length d"
    and "\<forall>a<length x. 0 \<le> x ! a \<and> x ! a \<le> 1"
    and "\<forall>a<length x. d ! a \<noteq> 0 \<longrightarrow> t \<le> crossing (x ! a) (d ! a)"
    and "\<exists>a<length x. d ! a \<noteq> 0 \<and> crossing (x ! a) (d ! a) = t"
    and "set i = {a. a < length x \<and> d ! a \<noteq> 0 \<and> crossing (x ! a) (d ! a) = t}"
    and "p = map clamp01 (vadd x (smul t d))"
proof -
  from assms show len: "length x = length d"
    by (auto simp: nearest_box_intersection_line_def split: if_splits)
  from assms show "\<forall>a<length x. 0 \<le> x ! a \<and> x ! a \<le> 1"
    by (auto simp: nearest_box_intersection_line_def list_all_length split: if_splits)
  from assms have ext: "nan_extremum True (map2 (axis_candidate True) x d) = Some t"
    by (auto simp: nearest_box_intersection_line_def Let_def split: if_splits option.splits)
  note E = nan_extremum_fwd_Some[OF ext, unfolded candidates_fwd_iff[OF len]]
  from E(2) show "\<forall>a<length x. d ! a \<noteq> 0 \<longrightarrow> t \<le> crossing (x ! a) (d ! a)" by blast
  from E(1) show "\<exists>a<length x. d ! a \<noteq> 0 \<and> crossing (x ! a) (d ! a) = t" by blast
  from assms have "i = filter (\<lambda>i. map2 (axis_candidate True) x d ! i = Some t) [0..<length (map2 (axis_candidate True) x d)]"
    by (auto simp: nearest_box_intersection_line_def Let_def split: if_splits option.splits)
  then show "set i = {a. a < length x \<and> d ! a \<noteq> 0 \<and> crossing (x ! a) (d ! a) = t}"
    using len by (auto simp: axis_candidate_fwd split: if_splits)
  from assms show "p = map clamp01 (vadd x (smul t d))"
    by (auto simp: nearest_box_intersection_line_def Let_def split: if_splits option.splits)
qed


lemma clamp01_id: "0 \<le> p \<Longrightarrow> p \<le> 1 \<Longrightarrow> clamp01 p = p"
  by (simp add: clamp01_def)

lemma axis_advance:
  assumes "d \<noteq> 0" "0 \<le> x" "x \<le> 1" "0 \<le> t" "t \<le> crossing x d"
  shows "0 \<le> x + t * d" "x + t * d \<le> 1" "crossing (x + t * d) d = crossing x d - t"
proof -
  show "0 \<le> x + t * d" "x + t * d \<le> 1" "crossing (x + t * d) d = crossing x d - t"
  proof (atomize(full), cases "0 < d")
    case True
    with assms have "t * d \<le> 1 - x" by (simp add: crossing_pos field_simps)
    moreover have "0 \<le> t * d" using True assms by simp
    ultimately show "0 \<le> x + t * d \<and> x + t * d \<le> 1 \<and> crossing (x + t * d) d = crossing x d - t"
      using True assms by (simp add: crossing_pos field_simps)
  next
    case False
    then have neg: "d < 0" using assms by simp
    with assms have "t * (- d) \<le> x" by (simp add: crossing_neg field_simps)
    moreover have "0 \<le> t * (- d)" using neg assms by (intro mult_nonneg_nonneg) simp_all
    ultimately show "0 \<le> x + t * d \<and> x + t * d \<le> 1 \<and> crossing (x + t * d) d = crossing x d - t"
      using neg assms by (simp add: crossing_neg field_simps)
  qed
qed

lemma axis_hit:
  assumes "d \<noteq> 0"
  shows "x + crossing x d * d = (if 0 < d then 1 else 0)"
  using assms by (cases "0 < d") (simp_all add: crossing_pos crossing_neg field_simps)

lemma crossing_after_reflect:
  "d \<noteq> 0 \<Longrightarrow> crossing (if 0 < d then 1 else 0) (- d) = 1 / \<bar>d\<bar>"
  by (cases "0 < d") (simp_all add: crossing_pos crossing_neg)

lemma crossing_after_wrap:
  "d \<noteq> 0 \<Longrightarrow> crossing (1 - (if 0 < d then 1 else 0)) d = 1 / \<bar>d\<bar>"
  by (cases "0 < d") (simp_all add: crossing_pos crossing_neg)


lemma bounces_left_advance:
  assumes "0 \<le> x" "x \<le> 1" "0 \<le> t" "t \<le> crossing x d"
  shows "bounces_left (tleft - t) (x + t * d) d = bounces_left tleft x d"
  using axis_advance(3)[OF _ assms] by (simp add: bounces_left_def)

lemma bounces_left_hit:
  assumes "d \<noteq> 0" "crossing x d < tleft" "crossing x' d' = 1 / \<bar>d\<bar>" "\<bar>d'\<bar> = \<bar>d\<bar>"
  shows "bounces_left (tleft - crossing x d) x' d' < bounces_left tleft x d"
proof -
  let ?q = "(tleft - crossing x d) * \<bar>d\<bar>"
  have q: "0 < ?q" using assms by simp
  have "(tleft - crossing x d - crossing x' d') * \<bar>d'\<bar> = ?q - 1"
    using assms by (simp add: field_simps)
  moreover have "nat \<lceil>?q - 1\<rceil> < nat \<lceil>?q\<rceil>" using q by linarith
  moreover have "d' \<noteq> 0" using assms by auto
  ultimately show ?thesis using assms by (simp add: bounces_left_def)
qed


lemma nbil_point:
  assumes "nearest_box_intersection_line x d True = Inr (p, t, i)" "0 \<le> t"
  shows "length p = length x"
    and "\<forall>a<length x. p ! a = x ! a + t * d ! a \<and> 0 \<le> p ! a \<and> p ! a \<le> 1"
    and "\<forall>a\<in>set i. p ! a = (if 0 < d ! a then 1 else 0)"
proof -
  note D = nbil_fwd_InrD[OF assms(1)]
  show len: "length p = length x" using D(1,6) by (simp add: length_vadd length_smul)
  show A: "\<forall>a<length x. p ! a = x ! a + t * d ! a \<and> 0 \<le> p ! a \<and> p ! a \<le> 1"
  proof (intro allI impI)
    fix a assume a: "a < length x"
    have pa: "p ! a = clamp01 (x ! a + t * d ! a)"
      using D(1,6) a by (simp add: length_vadd length_smul nth_vadd nth_smul)
    have "0 \<le> x ! a + t * d ! a \<and> x ! a + t * d ! a \<le> 1"
    proof (cases "d ! a = 0")
      case True then show ?thesis using D(2) a by simp
    next
      case False
      then show ?thesis using axis_advance(1,2)[OF False _ _ assms(2), of "x ! a"] D(2,3) a by simp
    qed
    then show "p ! a = x ! a + t * d ! a \<and> 0 \<le> p ! a \<and> p ! a \<le> 1"
      using pa by (simp add: clamp01_id)
  qed
  show "\<forall>a\<in>set i. p ! a = (if 0 < d ! a then 1 else 0)"
  proof
    fix a assume "a \<in> set i"
    then have a: "a < length x" "d ! a \<noteq> 0" "crossing (x ! a) (d ! a) = t" using D(5) by auto
    show "p ! a = (if 0 < d ! a then 1 else 0)"
      using A a(1) axis_hit[OF a(2), of "x ! a"] a(3) by simp
  qed
qed

lemma loop_measure_decreases:
  assumes nbil: "nearest_box_intersection_line x d True = Inr (p, t, i)"
    and t: "0 \<le> t" "t < tleft"
    and x': "length x' = length x"
      "\<forall>a<length x. x' ! a = (if a \<in> set i \<and> wr a then 1 - p ! a else p ! a)"
    and d': "\<forall>a<length x. d' ! a = (if a \<in> set i \<and> \<not> wr a then - d ! a else d ! a)"
  shows "(\<Sum>a<length x'. bounces_left (tleft - t) (x' ! a) (d' ! a))
       < (\<Sum>a<length x. bounces_left tleft (x ! a) (d ! a))"
  unfolding x'(1)
proof (rule sum_strict_mono_ex1)
  note D = nbil_fwd_InrD[OF nbil]
  note P = nbil_point[OF nbil t(1)]
  have hit: "bounces_left (tleft - t) (x' ! a) (d' ! a) < bounces_left tleft (x ! a) (d ! a)"
    if "a \<in> set i" for a
  proof -
    from that have a: "a < length x" "d ! a \<noteq> 0" "crossing (x ! a) (d ! a) = t" using D(5) by auto
    have pa: "p ! a = (if 0 < d ! a then 1 else 0)" using P(3) that by simp
    have "crossing (x' ! a) (d' ! a) = 1 / \<bar>d ! a\<bar> \<and> \<bar>d' ! a\<bar> = \<bar>d ! a\<bar>"
      using x'(2) d' a(1) that pa crossing_after_reflect[OF a(2)] crossing_after_wrap[OF a(2)]
      by (cases "wr a") simp_all
    then show ?thesis
      using bounces_left_hit[OF a(2), of "x ! a" tleft "x' ! a" "d' ! a"] a(3) t(2) by simp
  qed
  have nohit: "bounces_left (tleft - t) (x' ! a) (d' ! a) = bounces_left tleft (x ! a) (d ! a)"
    if "a < length x" "a \<notin> set i" for a
  proof (cases "d ! a = 0")
    case True
    then show ?thesis using d' that by (simp add: bounces_left_def)
  next
    case False
    have "t \<le> crossing (x ! a) (d ! a)" using D(3) that False by simp
    then show ?thesis
      using bounces_left_advance[of "x ! a" t "d ! a" tleft] D(2) t(1) x'(2) d' P(2) that by simp
  qed
  show "finite {..<length x}" by simp
  show "\<forall>a\<in>{..<length x}. bounces_left (tleft - t) (x' ! a) (d' ! a) \<le> bounces_left tleft (x ! a) (d ! a)"
    using hit nohit by (metis lessThan_iff less_imp_le order_refl)
  show "\<exists>a\<in>{..<length x}. bounces_left (tleft - t) (x' ! a) (d' ! a) < bounces_left tleft (x ! a) (d ! a)"
  proof -
    from D(4,5) obtain a where "a < length x" "a \<in> set i" by auto
    then show ?thesis using hit by auto
  qed
qed

termination lswr_loop
proof (relation "measure (\<lambda>(x, d, tl, w, r). \<Sum>a<length x. bounces_left tl (x ! a) (d ! a))",
    goal_cases)
  case 1
  show ?case by simp
next
  case (2 x d tleft w r res p rest t i)
  then have nbil: "nearest_box_intersection_line x d True = Inr (p, t, i)" by simp
  note D = nbil_fwd_InrD[OF nbil]
  have P: "length p = length x" using nbil_point[OF nbil] 2 by simp
  have "(\<Sum>a<length p. bounces_left (tleft - t) (p ! a) (update_at i (\<lambda>a d. d * (- 1)) d ! a))
       < (\<Sum>a<length x. bounces_left tleft (x ! a) (d ! a))"
    using 2 D(1) by (intro loop_measure_decreases[OF nbil, where wr = "\<lambda>a. False"] P)
      (simp_all add: nth_update_at)
  then show ?case by simp
next
  case (3 x d tleft w r res p rest t i wd)
  then have nbil: "nearest_box_intersection_line x d True = Inr (p, t, i)" by simp
  note D = nbil_fwd_InrD[OF nbil]
  have P: "length p = length x" using nbil_point[OF nbil] 3 by simp
  let ?x' = "update_at i (\<lambda>a x. if wd ! a then 1 - x else x) p"
  let ?d' = "update_at i (\<lambda>a d. d * (if wd ! a then 1 else - 1)) d"
  have "(\<Sum>a<length ?x'. bounces_left (tleft - t) (?x' ! a) (?d' ! a))
       < (\<Sum>a<length x. bounces_left tleft (x ! a) (d ! a))"
    using 3 D(1) P by (intro loop_measure_decreases[OF nbil, where wr = "\<lambda>a. wd ! a"])
      (simp_all add: nth_update_at length_update_at)
  then show ?case by simp
qed


section \<open>The ray and the unit cube: a worked case\<close>

text \<open>
  Claim C9.  From the origin \<open>(0.5, 0.5)\<close> in the direction \<open>(1, 0)\<close>,
  \<^verbatim>\<open>nearest_box_intersection_line\<close> returns forward the point \<open>(1, 0.5)\<close> at the
  distance \<open>0.5\<close> with the axes \<open>[0]\<close>, and backward the point \<open>(0, 0.5)\<close> at the distance
  \<open>-0.5\<close> with the axes \<open>[0]\<close>.  The second axis, whose direction component is zero, gives
  no candidate.
\<close>

theorem intersect_unit_cube_example:
  "nearest_box_intersection_line [1 / 2, 1 / 2] [1, 0] True = Inr ([1, 1 / 2], 1 / 2, [0]) \<and>
   nearest_box_intersection_line [1 / 2, 1 / 2] [1, 0] False = Inr ([0, 1 / 2], - (1 / 2), [0])"
  by code_simp

section \<open>Reflection off a plane\<close>

lemma sum_squares_vsub_smul:
  "length n = length v \<Longrightarrow>
   (\<Sum>x\<leftarrow>vsub v (smul c n). x\<^sup>2)
     = (\<Sum>x\<leftarrow>v. x\<^sup>2) - 2 * c * sum_list (vmul n v) + c\<^sup>2 * (\<Sum>x\<leftarrow>n. x\<^sup>2)"
proof (induction n v rule: list_induct2)
  case Nil
  then show ?case by (simp add: vsub_def smul_def vmul_def)
next
  case (Cons a n b v)
  have "(\<Sum>x\<leftarrow>vsub (b # v) (smul c (a # n)). x\<^sup>2)
      = (b - c * a)\<^sup>2 + (\<Sum>x\<leftarrow>vsub v (smul c n). x\<^sup>2)"
    by (simp add: vsub_def smul_def)
  then show ?case using Cons.IH
    by (simp add: vmul_def power2_eq_square algebra_simps)
qed

lemma norm_vec_mirror:
  assumes "length n = length v" "norm_vec n = 1"
  shows "norm_vec (vsub v (smul (2 * sum_list (vmul n v)) n)) = norm_vec v"
proof -
  have "(\<Sum>x\<leftarrow>n. x\<^sup>2) = 1"
    using assms(2) by (simp add: norm_vec_def)
  then have "(\<Sum>x\<leftarrow>vsub v (smul (2 * sum_list (vmul n v)) n). x\<^sup>2) = (\<Sum>x\<leftarrow>v. x\<^sup>2)"
    using sum_squares_vsub_smul[OF assms(1), of "2 * sum_list (vmul n v)"]
    by (simp add: power2_eq_square algebra_simps)
  then show ?thesis by (simp add: norm_vec_def)
qed

text \<open>
  Claim C8.  \<^verbatim>\<open>reflect(v, n)\<close> is \<open>v - 2 (v \<cdot> n) n\<close>, component by component, and for a
  normal \<open>n\<close> of unit length it has the Euclidean norm of \<open>v\<close>.  The norm is the exact one
  of the reals; \<open>v\<close> may be any vector of the dimension of \<open>n\<close>, the zero vector too.
\<close>

theorem reflect_preserves_norm:
  assumes "length n = length v" and "norm_vec n = 1"
  shows "length (reflect v n) = length v \<and>
         (\<forall>a<length v. reflect v n ! a = v ! a - 2 * (\<Sum>b<length v. v ! b * n ! b) * n ! a) \<and>
         norm_vec (reflect v n) = norm_vec v"
proof (intro conjI)
  show "length (reflect v n) = length v"
    using assms(1) by (simp add: reflect_def vsub_def smul_def)
  have dot: "sum_list (vmul n v) = (\<Sum>b<length v. v ! b * n ! b)"
    using assms(1)
    by (simp add: vmul_def map2_conv_nth sum_list_sum_nth atLeast0LessThan mult.commute)
  show "\<forall>a<length v. reflect v n ! a = v ! a - 2 * (\<Sum>b<length v. v ! b * n ! b) * n ! a"
    using assms(1) by (simp add: reflect_def vsub_def smul_def dot)
  show "norm_vec (reflect v n) = norm_vec v"
    unfolding reflect_def by (rule norm_vec_mirror[OF assms])
qed

theorem reflect_preserves_norm_witness:
  "length [0, 1 :: real] = length [3, 4 :: real] \<and> norm_vec [0, 1] = 1 \<and>
   reflect [3, 4] [0, 1] = [3, - 4] \<and> norm_vec (reflect [3, 4] [0, 1]) = norm_vec [3, 4]"
proof -
  have l: "length [0, 1 :: real] = length [3, 4 :: real]" by simp
  have n: "norm_vec [0, 1] = 1" by (simp add: norm_vec_def)
  have r: "reflect [3, 4] [0, 1] = [3, - 4]"
    by (simp add: reflect_def vsub_def smul_def vmul_def)
  show ?thesis using l n r reflect_preserves_norm[OF l n] by simp
qed


section \<open>Acceptance against the threshold\<close>

text \<open>
  Claim C1, as stated: \<^verbatim>\<open>add_if_above_threshold\<close> accepts exactly when the likelihood is
  at least \<open>Lmin\<close>.  At a likelihood equal to \<open>Lmin\<close> the code rejects: the test of line 352
  is the strict \<^verbatim>\<open>L > self.Lmin\<close>.
\<close>

theorem try_accept_at_threshold_counterexample:
  "\<not> (fst (add_if_above_threshold example_contour 1 [1 / 2] [1 / 4])
        \<longleftrightarrow> Lmin example_contour
              \<le> likelihood example_contour (transform example_contour [1 / 2]))"
  by (simp add: add_if_above_threshold_def example_contour_def)

text \<open>
  Claim C1, amended.  For every index, position and direction, the call evaluates the
  likelihood, counts one evaluation, and returns true exactly when the likelihood is strictly
  above \<open>Lmin\<close>; then it appends the point, with that likelihood, to the path.  Otherwise it
  returns false and the points of the path are unchanged.  Every point that it adds has a
  likelihood strictly above \<open>Lmin\<close>.
\<close>

theorem try_accept_strict:
  "fst (add_if_above_threshold cp i x v) = (Lmin cp < likelihood cp (transform cp x)) \<and>
   ncalls (snd (add_if_above_threshold cp i x v)) = ncalls cp + 1 \<and>
   Lmin (snd (add_if_above_threshold cp i x v)) = Lmin cp \<and>
   points (samplingpath (snd (add_if_above_threshold cp i x v)))
     = points (samplingpath cp)
       @ (if Lmin cp < likelihood cp (transform cp x)
          then [(i, x, v, likelihood cp (transform cp x))] else []) \<and>
   list_all (\<lambda>q. Lmin cp < snd (snd (snd q)))
     (drop (length (points (samplingpath cp)))
        (points (samplingpath (snd (add_if_above_threshold cp i x v)))))"
  by (simp add: add_if_above_threshold_def add_def Let_def)

theorem try_accept_strict_witness:
  "fst (add_if_above_threshold example_contour 1 [3 / 4] [1 / 4]) \<and>
   \<not> fst (add_if_above_threshold example_contour 1 [1 / 2] [1 / 4]) \<and>
   points (samplingpath (snd (add_if_above_threshold example_contour 1 [3 / 4] [1 / 4])))
     = [(0, [1 / 4], [1 / 4], 1), (1, [3 / 4], [1 / 4], 3 / 4)] \<and>
   points (samplingpath (snd (add_if_above_threshold example_contour 1 [1 / 2] [1 / 4])))
     = [(0, [1 / 4], [1 / 4], 1)]"
  using try_accept_strict[of example_contour 1 "[3 / 4]" "[1 / 4]"]
    try_accept_strict[of example_contour 1 "[1 / 2]" "[1 / 4]"]
  by (simp add: example_contour_def reset_def)

section \<open>Looking a point up\<close>

lemma fold_max_point:
  fixes m :: point
  shows "fst m \<le> fst (fold (\<lambda>r m. if fst m < fst r then r else m) qs m) \<and>
   (\<forall>r\<in>set qs. fst r \<le> fst (fold (\<lambda>r m. if fst m < fst r then r else m) qs m)) \<and>
   fold (\<lambda>r m. if fst m < fst r then r else m) qs m \<in> set (m # qs)"
proof (induction qs arbitrary: m)
  case Nil
  show ?case by simp
next
  case (Cons q qs)
  show ?case using Cons[of "if fst m < fst q then q else m"]
    by (auto split: if_splits)
qed

lemma fold_min_point:
  fixes m :: point
  shows "fst (fold (\<lambda>r m. if fst r < fst m then r else m) qs m) \<le> fst m \<and>
   (\<forall>r\<in>set qs. fst (fold (\<lambda>r m. if fst r < fst m then r else m) qs m) \<le> fst r) \<and>
   fold (\<lambda>r m. if fst r < fst m then r else m) qs m \<in> set (m # qs)"
proof (induction qs arbitrary: m)
  case Nil
  show ?case by simp
next
  case (Cons q qs)
  show ?case using Cons[of "if fst q < fst m then q else m"]
    by (auto split: if_splits)
qed

lemma max_point_Some:
  assumes "max_point ps = Some q"
  shows "q \<in> set ps" "\<forall>r\<in>set ps. fst r \<le> fst q"
  using assms fold_max_point[of "hd ps" "tl ps"]
  by (cases ps; auto)+

lemma min_point_Some:
  assumes "min_point ps = Some q"
  shows "q \<in> set ps" "\<forall>r\<in>set ps. fst q \<le> fst r"
  using assms fold_min_point[of "tl ps" "hd ps"]
  by (cases ps; auto)+

lemma max_point_None: "max_point ps = None \<longleftrightarrow> ps = []"
  by (cases ps) simp_all

lemma min_point_None: "min_point ps = None \<longleftrightarrow> ps = []"
  by (cases ps) simp_all

text \<open>
  Claim C6, as stated: a second query of an index that was evaluated leaves the evaluation
  counter unchanged.  \<^verbatim>\<open>add_if_above_threshold\<close> keeps no cache: called again with the
  index, position and direction that it has just recorded, it evaluates and counts again.
\<close>

theorem try_accept_twice_counterexample:
  "ncalls (snd (add_if_above_threshold
             (snd (add_if_above_threshold example_contour 1 [3 / 4] [1 / 4])) 1 [3 / 4] [1 / 4]))
   \<noteq> ncalls (snd (add_if_above_threshold example_contour 1 [3 / 4] [1 / 4]))"
  by (simp add: add_if_above_threshold_def example_contour_def Let_def)

text \<open>
  Claim C6, amended.  \<^verbatim>\<open>interpolate\<close> reads the path only (it is a function of the
  sampling path, which holds neither the likelihood nor the counter): at a recorded index, on a
  path of distinct indices, it returns the stored point with the stored likelihood.
  \<^verbatim>\<open>add_if_above_threshold\<close> evaluates the likelihood and counts one evaluation at every
  call, at a recorded index too.
\<close>

theorem cached_lookup_and_recount:
  assumes "distinct (map fst (points (samplingpath cp)))"
    and "(i, x, v, L) \<in> set (points (samplingpath cp))"
  shows "interpolate (samplingpath cp) i = Inr (x, v, Some L, True) \<and>
         ncalls (snd (add_if_above_threshold cp i x v)) = ncalls cp + 1"
proof
  let ?ps = "points (samplingpath cp)"
  let ?before = "filter (\<lambda>(j, xj, vj, Lj). j \<le> i) ?ps"
  let ?after = "filter (\<lambda>(j, xj, vj, Lj). j \<ge> i) ?ps"
  have inb: "(i, x, v, L) \<in> set ?before" and ina: "(i, x, v, L) \<in> set ?after"
    using assms(2) by auto
  then have ne: "?before \<noteq> []" "?after \<noteq> []"
    by (metis empty_iff list.set(1))+
  obtain q where q: "max_point ?before = Some q"
    using ne(1) max_point_None[of ?before] by (cases "max_point ?before") auto
  obtain r where r: "min_point ?after = Some r"
    using ne(2) min_point_None[of ?after] by (cases "min_point ?after") auto
  have "fst q \<le> i" using max_point_Some(1)[OF q] by auto
  moreover have "i \<le> fst q" using max_point_Some(2)[OF q] inb by fastforce
  ultimately have fq: "fst q = i" by simp
  have "q \<in> set ?ps" using max_point_Some(1)[OF q] by auto
  then have "q = (i, x, v, L)"
    using assms fq by (metis eq_key_imp_eq_value prod.collapse)
  then show "interpolate (samplingpath cp) i = Inr (x, v, Some L, True)"
    using q r ne by (cases r) (simp add: interpolate_def Let_def)
  show "ncalls (snd (add_if_above_threshold cp i x v)) = ncalls cp + 1"
    by (simp add: add_if_above_threshold_def Let_def)
qed

theorem cached_lookup_and_recount_witness:
  "distinct (map fst (points (samplingpath example_contour))) \<and>
   (0, [1 / 4], [1 / 4], 1) \<in> set (points (samplingpath example_contour)) \<and>
   interpolate (samplingpath example_contour) 0 = Inr ([1 / 4], [1 / 4], Some 1, True) \<and>
   ncalls (snd (add_if_above_threshold example_contour 0 [1 / 4] [1 / 4])) = 1"
proof -
  have d: "distinct (map fst (points (samplingpath example_contour)))"
    by (simp add: example_contour_def reset_def)
  have m: "(0, [1 / 4], [1 / 4], 1) \<in> set (points (samplingpath example_contour))"
    by (simp add: example_contour_def reset_def)
  have "ncalls example_contour = 0" by (simp add: example_contour_def)
  with cached_lookup_and_recount[OF d m] d m show ?thesis by simp
qed

text \<open>
  Claim C2, at a path with the points \<open>0\<close> and \<open>3\<close> of one trajectory in one dimension
  (the second is what three unit steps from the first give) and the unrecorded index \<open>2\<close>:
  the replay forward from \<open>0\<close> and the replay backward from \<open>3\<close> agree on the position
  \<open>0.75\<close> and on the direction \<open>-0.375\<close>, the trajectory having met the face \<open>1\<close> in
  between.  \<^verbatim>\<open>interpolate\<close> returns the position \<open>0.75\<close> with the direction \<open>0.375\<close>
  that is stored at index \<open>0\<close> (line 312 returns \<^verbatim>\<open>vj\<close>, not \<^verbatim>\<open>vj1\<close>).
  On the path of the same kind that starts with the direction \<open>0.25\<close>, index \<open>2\<close> lies
  on the face \<open>1\<close> itself: the replay forward stops there before reflecting, the replay
  backward arrives there reflected, the two directions differ and the assertion of line 304
  fails.
\<close>

theorem interpolate_returns_stored_direction:
  "extrapolate_ahead 3 [1 / 2] [3 / 8] = Inr ([3 / 8], [- (3 / 8)]) \<and>
   extrapolate_ahead (2 - 0) [1 / 2] [3 / 8] = Inr ([3 / 4], [- (3 / 8)]) \<and>
   extrapolate_ahead (2 - 3) [3 / 8] [- (3 / 8)] = Inr ([3 / 4], [- (3 / 8)]) \<and>
   interpolate example_path 2 = Inr ([3 / 4], [3 / 8], None, True) \<and>
   extrapolate_ahead 3 [1 / 2] [1 / 4] = Inr ([3 / 4], [- (1 / 4)]) \<and>
   extrapolate_ahead (2 - 0) [1 / 2] [1 / 4] = Inr ([1], [1 / 4]) \<and>
   extrapolate_ahead (2 - 3) [3 / 4] [- (1 / 4)] = Inr ([1], [- (1 / 4)]) \<and>
   interpolate
     (example_path\<lparr>points := [(0, [1 / 2], [1 / 4], 1), (3, [3 / 4], [- (1 / 4)], 1)]\<rparr>) 2
     = Inl AssertionError"
  by code_simp

section \<open>Periodic axes\<close>

text \<open>
  Claim C5, at the origin \<open>0.5\<close> with the direction \<open>1\<close> on one periodic axis.  For
  \<open>t = 2\<close> the traversal wraps at the first crossing and stops at the second, at the face
  \<open>1\<close>.  For \<open>t = -2\<close> the call of line 123 passes no \<^verbatim>\<open>wrapped_dims\<close> on: the axis
  reflects twice as an ordinary one, the traversal does not stop at the second crossing, and
  the result is that of the call without periodic axes.
\<close>

theorem wrapped_axes_dropped_for_negative_steps:
  "linear_steps_with_reflection [1 / 2] [1] 2 (Some [True]) = Inr ([1], [1]) \<and>
   linear_steps_with_reflection [1 / 2] [1] (- 2) (Some [True]) = Inr ([1 / 2], [1]) \<and>
   linear_steps_with_reflection [1 / 2] [1] (- 2) (Some [True])
     = linear_steps_with_reflection [1 / 2] [1] (- 2) None"
  by code_simp

section \<open>The final draw\<close>




section \<open>The reflecting traversal stays in the cube\<close>

lemma in_cube_nth: "in_cube x \<longleftrightarrow> (\<forall>a<length x. 0 \<le> x ! a \<and> x ! a \<le> 1)"
  by (simp add: in_cube_def list_all_length)

lemma nbil_fwd_total:
  assumes len: "length x = length d" and cube: "in_cube x"
    and nz: "\<exists>a<length x. d ! a \<noteq> 0"
  shows "\<exists>p t i. nearest_box_intersection_line x d True = Inr (p, t, i) \<and> 0 \<le> t"
proof -
  let ?ts = "map2 (axis_candidate True) x d"
  from nz obtain a where a: "a < length x" "d ! a \<noteq> 0" by blast
  then have "Some (crossing (x ! a) (d ! a)) \<in> set ?ts"
    using candidates_fwd_iff[OF len] by blast
  then have "finite_candidates ?ts \<noteq> []"
    using set_finite_candidates[of ?ts] by (metis empty_iff list.set(1) mem_Collect_eq)
  then obtain t where t: "nan_extremum True ?ts = Some t"
    by (cases "finite_candidates ?ts") (simp_all add: nan_extremum_def)
  note E = nan_extremum_fwd_Some[OF t, unfolded candidates_fwd_iff[OF len]]
  have t0: "0 \<le> t" using E(1) cube crossing_nonneg by (auto simp: in_cube_nth)
  have pt: "0 \<le> x ! b + t * d ! b \<and> x ! b + t * d ! b \<le> 1" if "b < length x" for b
  proof (cases "d ! b = 0")
    case True
    then show ?thesis using cube that by (simp add: in_cube_nth)
  next
    case False
    have "t \<le> crossing (x ! b) (d ! b)" using E(2) that False by blast
    then show ?thesis
      using axis_advance(1,2)[OF False _ _ t0, of "x ! b"] cube that by (simp add: in_cube_nth)
  qed
  have pt': "- eps \<le> x ! b + t * d ! b \<and> x ! b + t * d ! b \<le> 1 + eps" if "b < length x" for b
    using pt[OF that] unfolding eps_def by linarith
  have lo: "list_all (\<lambda>p. - eps \<le> p) (vadd x (smul t d))"
    using pt' len by (simp add: list_all_length length_vadd length_smul nth_vadd nth_smul)
  have hi: "list_all (\<lambda>p. p \<le> 1 + eps) (vadd x (smul t d))"
    using pt' len by (simp add: list_all_length length_vadd length_smul nth_vadd nth_smul)
  have x0: "x \<noteq> []" using a by auto
  have c0: "list_all (\<lambda>x. 0 \<le> x) x" "list_all (\<lambda>x. x \<le> 1) x"
    using cube by (simp_all add: in_cube_nth list_all_length)
  show ?thesis
    using len x0 c0 t lo hi t0 by (simp add: nearest_box_intersection_line_def Let_def)
qed

lemma length_vneg: "length (vneg d) = length d"
  by (simp add: vneg_def)

lemma nth_vneg: "a < length d \<Longrightarrow> vneg d ! a = - d ! a"
  by (simp add: vneg_def)

lemma norm_vec_abs_cong:
  assumes "length d' = length d" "\<forall>a<length d. \<bar>d' ! a\<bar> = \<bar>d ! a\<bar>"
  shows "norm_vec d' = norm_vec d"
proof -
  have "map (\<lambda>x. x\<^sup>2) d' = map (\<lambda>x. x\<^sup>2) d"
  proof (rule nth_equalityI)
    show "length (map (\<lambda>x. x\<^sup>2) d') = length (map (\<lambda>x. x\<^sup>2) d)" using assms(1) by simp
    fix a assume "a < length (map (\<lambda>x. x\<^sup>2) d')"
    then have a: "a < length d" using assms(1) by simp
    have "(d' ! a)\<^sup>2 = (d ! a)\<^sup>2" using assms(2) a by (metis power2_abs)
    then show "map (\<lambda>x. x\<^sup>2) d' ! a = map (\<lambda>x. x\<^sup>2) d ! a" using a assms(1) by simp
  qed
  then show ?thesis by (simp add: norm_vec_def)
qed


lemma clamp01_range: "0 \<le> clamp01 p \<and> clamp01 p \<le> 1"
  by (simp add: clamp01_def Let_def)

lemma nbil_clamped:
  assumes "nearest_box_intersection_line x d fwd = Inr (p, t, i)"
  shows "in_cube p" and "length p = length x" and "length d = length x"
    and "list_all (\<lambda>a. a < length x) i"
proof -
  from assms have len: "length x = length d"
    by (auto simp: nearest_box_intersection_line_def split: if_splits)
  from assms have p: "p = map clamp01 (vadd x (smul t d))"
    by (auto simp: nearest_box_intersection_line_def Let_def split: if_splits option.splits)
  show "in_cube p" unfolding p in_cube_def by (simp add: list_all_iff clamp01_range)
  show "length p = length x" unfolding p using len by (simp add: length_vadd length_smul)
  show "length d = length x" using len by simp
  from assms have "i = filter (\<lambda>i. map2 (axis_candidate fwd) x d ! i = Some t)
                        [0..<length (map2 (axis_candidate fwd) x d)]"
    by (auto simp: nearest_box_intersection_line_def Let_def split: if_splits option.splits)
  then show "list_all (\<lambda>a. a < length x) i" using len by (simp add: list_all_iff)
qed

lemma loop_closure:
  assumes "lswr_loop x d tleft w r = Inr (p, d')"
  shows "in_cube p \<and> length p = length x \<and> length d' = length d \<and>
         (\<forall>a<length d. \<bar>d' ! a\<bar> = \<bar>d ! a\<bar>)"
  using assms
proof (induction x d tleft w r rule: lswr_loop.induct)
  case (1 x d tleft w r)
  note run = "1.prems"
  obtain p1 t i where n: "nearest_box_intersection_line x d True = Inr (p1, t, i)"
  proof (cases "nearest_box_intersection_line x d True")
    case (Inl e)
    then show ?thesis using run by (simp add: lswr_loop.simps[of x d tleft])
  next
    case (Inr res)
    then show ?thesis using that by (cases res) auto
  qed
  note C = nbil_clamped[OF n]
  have t0: "0 \<le> t"
    using run n by (cases "0 \<le> t") (simp_all add: lswr_loop.simps[of x d tleft])
  show ?case
  proof (cases "tleft \<le> t")
    case True
    have "p = vadd x (smul tleft d) \<and> d' = d \<and> in_cube (vadd x (smul tleft d))"
      using run n t0 True
      by (auto simp: lswr_loop.simps[of x d tleft] Let_def in_cube_def list_all_iff
          split: if_splits)
    then show ?thesis using C(3) by (simp add: length_vadd length_smul)
  next
    case False
    show ?thesis
    proof (cases w)
      case None
      let ?d1 = "update_at i (\<lambda>a d. d * (- 1)) d"
      have rec: "lswr_loop p1 ?d1 (tleft - t) None r = Inr (p, d')"
        using run n t0 False None by (simp add: lswr_loop.simps[of x d tleft])
      have ab: "\<forall>a<length d. \<bar>?d1 ! a\<bar> = \<bar>d ! a\<bar>" by (simp add: nth_update_at)
      from "1.IH"(1)[OF n refl refl _ False None rec] t0
      have "in_cube p \<and> length p = length p1 \<and> length d' = length ?d1 \<and>
            (\<forall>a<length ?d1. \<bar>d' ! a\<bar> = \<bar>?d1 ! a\<bar>)" by simp
      then show ?thesis using C(2) ab by (simp add: length_update_at)
    next
      case (Some wd)
      have noidx: "\<not> list_ex (\<lambda>a. length wd \<le> a) i"
        using run n t0 False Some
        by (cases "list_ex (\<lambda>a. length wd \<le> a) i") (simp_all add: lswr_loop.simps[of x d tleft])
      show ?thesis
      proof (cases "list_ex (\<lambda>a. r ! a \<and> wd ! a) i")
        case True
        then have "p = p1 \<and> d' = d"
          using run n t0 False Some noidx by (simp add: lswr_loop.simps[of x d tleft])
        then show ?thesis using C(1,2) by simp
      next
        case nostop: False
        have close: "list_all (\<lambda>a. isclose (p1 ! a) 1 \<or> isclose (p1 ! a) 0) i"
          using run n t0 False Some noidx nostop
          by (cases "list_all (\<lambda>a. isclose (p1 ! a) 1 \<or> isclose (p1 ! a) 0) i")
            (simp_all add: lswr_loop.simps[of x d tleft])
        let ?x1 = "update_at i (\<lambda>a x. if wd ! a then 1 - x else x) p1"
        let ?d1 = "update_at i (\<lambda>a d. d * (if wd ! a then 1 else - 1)) d"
        let ?r1 = "update_at i (\<lambda>a r. True) r"
        have rec: "lswr_loop ?x1 ?d1 (tleft - t) (Some wd) ?r1 = Inr (p, d')"
          using run n t0 False Some noidx nostop close
          by (simp add: lswr_loop.simps[of x d tleft])
        have ab: "\<forall>a<length d. \<bar>?d1 ! a\<bar> = \<bar>d ! a\<bar>" by (simp add: nth_update_at)
        from "1.IH"(2)[OF n refl refl _ False Some noidx nostop _ rec] t0 close
        have "in_cube p \<and> length p = length ?x1 \<and> length d' = length ?d1 \<and>
              (\<forall>a<length ?d1. \<bar>d' ! a\<bar> = \<bar>?d1 ! a\<bar>)" by simp
        then show ?thesis using C(2) ab by (simp add: length_update_at)
      qed
    qed
  qed
qed

text \<open>
  Claim C10.  For every origin in the unit cube, every direction and every \<open>t\<close>, positive,
  zero or negative, without or with periodic axes: the position that
  \<^verbatim>\<open>linear_steps_with_reflection\<close> returns lies in the unit cube, and each component of
  the returned direction is that of the given direction up to its sign, so that the two have
  the same Euclidean norm.  The statement is about the value of a call that returns: the
  position is clamped (lines 101, 102) or checked (lines 136, 137) before it is returned, and
  the direction changes by sign flips only.  That the call returns is not part of it.
\<close>

theorem step_stays_in_cube:
  assumes "in_cube x" and "linear_steps_with_reflection x d t w = Inr (p, d')"
  shows "in_cube p \<and> length p = length x \<and> length d' = length d \<and>
         (\<forall>a<length d. \<bar>d' ! a\<bar> = \<bar>d ! a\<bar>) \<and> norm_vec d' = norm_vec d"
proof -
  have core: "in_cube p \<and> length p = length x \<and> length d' = length d \<and>
         (\<forall>a<length d. \<bar>d' ! a\<bar> = \<bar>d ! a\<bar>)"
  proof (cases "t = 0")
    case True
    then show ?thesis
      using assms by (simp add: linear_steps_with_reflection_def del: lswr_loop.simps)
  next
    case nz: False
    show ?thesis
    proof (cases "t < 0")
      case True
      obtain d1 where run: "lswr_loop x (vneg d) (- t) None [] = Inr (p, d1)"
        and d': "d' = vneg d1"
      proof (cases "lswr_loop x (vneg d) (- t) None []")
        case (Inl e)
        then show ?thesis
          using assms(2) True by (simp add: linear_steps_with_reflection_def del: lswr_loop.simps)
      next
        case (Inr res)
        then show ?thesis
          using assms(2) True that
          by (cases res) (simp add: linear_steps_with_reflection_def del: lswr_loop.simps)
      qed
      from loop_closure[OF run] have c: "in_cube p" "length p = length x"
        "length d1 = length d" "\<forall>a<length d. \<bar>d1 ! a\<bar> = \<bar>d ! a\<bar>"
        by (simp_all add: length_vneg nth_vneg)
      then show ?thesis using d' by (simp add: length_vneg nth_vneg)
    next
      case False
      with nz assms(2) have
        "lswr_loop x d t w (replicate (length x) False) = Inr (p, d')"
        by (simp add: linear_steps_with_reflection_def del: lswr_loop.simps)
      from loop_closure[OF this] show ?thesis .
    qed
  qed
  moreover have "norm_vec d' = norm_vec d"
    using norm_vec_abs_cong[of d' d] core by simp
  ultimately show ?thesis by simp
qed

theorem step_stays_in_cube_witness:
  "in_cube [1 / 2, 1 / 4] \<and>
   linear_steps_with_reflection [1 / 2, 1 / 4] [1, 0] (3 / 4) None = Inr ([3 / 4, 1 / 4], [- 1, 0]) \<and>
   in_cube [3 / 4, 1 / 4] \<and> norm_vec [- 1, 0] = norm_vec [1, 0] \<and>
   linear_steps_with_reflection [1 / 2, 1 / 4] [1, 0] (- 2) (Some [True, False])
     = Inr ([1 / 2, 1 / 4], [1, 0])"
proof -
  have c: "in_cube [1 / 2, 1 / 4]" by (simp add: in_cube_def)
  have e1: "linear_steps_with_reflection [1 / 2, 1 / 4] [1, 0] (3 / 4) None
              = Inr ([3 / 4, 1 / 4], [- 1, 0])" by code_simp
  have e2: "linear_steps_with_reflection [1 / 2, 1 / 4] [1, 0] (- 2) (Some [True, False])
              = Inr ([1 / 2, 1 / 4], [1, 0])" by code_simp
  from step_stays_in_cube[OF c e1] c e1 e2 show ?thesis by simp
qed

section \<open>One step of the step sampler\<close>

lemma well_formed_frontier:
  assumes "well_formed sp"
  shows "\<exists>i x v L. max_point (points sp) = Some (i, x, v, L) \<and> 0 \<le> i \<and>
            (i, x, v, L) \<in> set (points sp)"
    and "\<exists>i x v L. min_point (points sp) = Some (i, x, v, L) \<and> i \<le> 0 \<and>
            (i, x, v, L) \<in> set (points sp)"
proof -
  from assms obtain q where q: "q \<in> set (points sp)" "fst q = 0"
    by (auto simp: well_formed_def list_ex_iff)
  then have ne: "points sp \<noteq> []" by auto
  obtain m where m: "max_point (points sp) = Some m"
    using ne max_point_None[of "points sp"] by (cases "max_point (points sp)") auto
  obtain n where n: "min_point (points sp) = Some n"
    using ne min_point_None[of "points sp"] by (cases "min_point (points sp)") auto
  have "0 \<le> fst m" using max_point_Some(2)[OF m] q by force
  then show "\<exists>i x v L. max_point (points sp) = Some (i, x, v, L) \<and> 0 \<le> i \<and>
            (i, x, v, L) \<in> set (points sp)"
    using m max_point_Some(1)[OF m] by (cases m) auto
  have "fst n \<le> 0" using min_point_Some(2)[OF n] q by force
  then show "\<exists>i x v L. min_point (points sp) = Some (i, x, v, L) \<and> i \<le> 0 \<and>
            (i, x, v, L) \<in> set (points sp)"
    using n min_point_Some(1)[OF n] by (cases n) auto
qed

lemma unit_normals_example: "unit_normals example_gradient"
proof -
  have "norm_vec (1 # replicate n 0) = 1" for n
    by (simp add: norm_vec_def sum_list_replicate)
  then show ?thesis
    by (auto simp: unit_normals_def example_gradient_def)
qed

lemma reverse_unit_normals:
  assumes g: "unit_normals gradient"
  shows "reverse gradient p v = Inr (reflected_direction gradient p v)"
proof -
  have G: "case gradient p v of
             Inl e \<Rightarrow> False
           | Inr None \<Rightarrow> True
           | Inr (Some n) \<Rightarrow> length n = length v \<and> norm_vec n = 1"
    using g by (simp add: unit_normals_def)
  show ?thesis
  proof (cases "gradient p v")
    case (Inl e)
    with G show ?thesis by simp
  next
    case (Inr r)
    show ?thesis
    proof (cases r)
      case None
      then show ?thesis using Inr by (simp add: reverse_def reflected_direction_def)
    next
      case (Some n)
      have n: "length n = length v" "norm_vec n = 1"
        using G Inr Some by simp_all
      have eq: "vsub v (smul (2 * angle n v) n) = reflect v n"
        by (simp add: reflect_def angle_def)
      have "norm_vec (reflect v n) = norm_vec v"
        unfolding reflect_def by (rule norm_vec_mirror[OF n])
      then have "isclose (norm_vec (reflect v n)) (norm_vec v)" by (simp add: isclose_def)
      then show ?thesis
        using Inr Some n(1) eq by (simp add: reverse_def reflected_direction_def Let_def)
    qed
  qed
qed

text \<open>
  Claim C3.  On a path with distinct indices that holds its starting point, and with a
  gradient that meets its contract, one call of \<^verbatim>\<open>expand_onestep\<close> with
  \<^verbatim>\<open>plot=False\<close> does the following.  It takes one unit step from the frontier (the point
  of greatest index forward, of least index backward) and makes a first accept attempt.  If
  that is accepted the call returns true after one evaluation.  Only if it is rejected, it
  takes the direction \<open>reflected_direction\<close> at the rejected point (the mirror image of the
  direction of travel in the plane of the normal estimate), takes one unit step from the
  rejected point in it and makes a second, last attempt: accepted, the call returns true;
  rejected, the call sets the open flag of that side to false, leaves the points and the
  other flag as they are, and returns false.  Two evaluations and one reflection are counted
  then.  A rejection raises nothing: an error reaches the caller only when one of the two unit
  steps raises (an assertion of \<^verbatim>\<open>linear_steps_with_reflection\<close>), and is that error.
\<close>

theorem expand_onestep_two_attempts:
  fixes s :: stepsampler and fwd :: bool
  defines "cp \<equiv> contourpath s"
  defines "sp \<equiv> samplingpath (contourpath s)"
  defines "sign \<equiv> (if fwd then 1 else - 1 :: int)"
  defines "lik \<equiv> (\<lambda>z. likelihood (contourpath s) (transform (contourpath s) z))"
  assumes wf: "well_formed sp" and g: "unit_normals gradient"
  shows "\<exists>starti startx startv startL.
           (if fwd then max_point (points sp) else min_point (points sp))
              = Some (starti, startx, startv, startL) \<and>
           (case extrapolate_ahead sign startx startv of
              Inl e \<Rightarrow> expand_onestep gradient s fwd = Inl e
            | Inr (xj, v) \<Rightarrow>
                if Lmin cp < lik xj then
                  expand_onestep gradient s fwd
                    = Inr (True, s\<lparr>contourpath :=
                             cp\<lparr>ncalls := ncalls cp + 1,
                                samplingpath := add sp (starti + sign) xj v (lik xj)\<rparr>\<rparr>)
                else
                  (case extrapolate_ahead sign xj
                          (smul (real_of_int sign)
                             (reflected_direction gradient xj (smul (real_of_int sign) v))) of
                     Inl e \<Rightarrow> expand_onestep gradient s fwd = Inl e
                   | Inr (xk, vk) \<Rightarrow>
                       if Lmin cp < lik xk then
                         expand_onestep gradient s fwd
                           = Inr (True, s\<lparr>nreflections := nreflections s + 1,
                                    contourpath :=
                                      cp\<lparr>ncalls := ncalls cp + 2,
                                         samplingpath :=
                                           add sp (starti + sign) xk vk (lik xk)\<rparr>\<rparr>)
                       else
                         expand_onestep gradient s fwd
                           = Inr (False, s\<lparr>nreflections := nreflections s + 1,
                                    contourpath :=
                                      cp\<lparr>ncalls := ncalls cp + 2,
                                         samplingpath :=
                                           (if fwd then sp\<lparr>fwd_possible := False\<rparr>
                                            else sp\<lparr>rwd_possible := False\<rparr>)\<rparr>\<rparr>)))"
proof -
  obtain starti startx startv startL where
    fr: "(if fwd then max_point (points sp) else min_point (points sp))
           = Some (starti, startx, startv, startL)"
    and side: "if fwd then 0 \<le> starti else starti \<le> 0"
    using well_formed_frontier[OF wf] by (cases fwd) auto
  have mx: "fwd \<Longrightarrow> max_point (points (samplingpath (contourpath s)))
                  = Some (starti, startx, startv, startL)"
    and mn: "\<not> fwd \<Longrightarrow> min_point (points (samplingpath (contourpath s)))
                  = Some (starti, startx, startv, startL)"
    using fr by (simp_all add: sp_def)
  have ex: "extrapolate (samplingpath (contourpath s)) (starti + 1 * sign)
              = extrapolate_ahead sign startx startv"
    using fr side by (cases fwd) (simp_all add: extrapolate_def sign_def sp_def Let_def)
  note rv = reverse_unit_normals[OF g]
  have body: "case extrapolate_ahead sign startx startv of
              Inl e \<Rightarrow> expand_onestep gradient s fwd = Inl e
            | Inr (xj, v) \<Rightarrow>
                if Lmin cp < lik xj then
                  expand_onestep gradient s fwd
                    = Inr (True, s\<lparr>contourpath :=
                             cp\<lparr>ncalls := ncalls cp + 1,
                                samplingpath := add sp (starti + sign) xj v (lik xj)\<rparr>\<rparr>)
                else
                  (case extrapolate_ahead sign xj
                          (smul (real_of_int sign)
                             (reflected_direction gradient xj (smul (real_of_int sign) v))) of
                     Inl e \<Rightarrow> expand_onestep gradient s fwd = Inl e
                   | Inr (xk, vk) \<Rightarrow>
                       if Lmin cp < lik xk then
                         expand_onestep gradient s fwd
                           = Inr (True, s\<lparr>nreflections := nreflections s + 1,
                                    contourpath :=
                                      cp\<lparr>ncalls := ncalls cp + 2,
                                         samplingpath :=
                                           add sp (starti + sign) xk vk (lik xk)\<rparr>\<rparr>)
                       else
                         expand_onestep gradient s fwd
                           = Inr (False, s\<lparr>nreflections := nreflections s + 1,
                                    contourpath :=
                                      cp\<lparr>ncalls := ncalls cp + 2,
                                         samplingpath :=
                                           (if fwd then sp\<lparr>fwd_possible := False\<rparr>
                                            else sp\<lparr>rwd_possible := False\<rparr>)\<rparr>\<rparr>))"
  proof (cases "extrapolate_ahead sign startx startv")
    case (Inl e)
    have "expand_onestep gradient s fwd = Inl e"
      unfolding expand_onestep_def Let_def sign_def[symmetric]
      using mx mn ex Inl by (cases fwd) simp_all
    then show ?thesis using Inl by simp
  next
    case (Inr res)
    obtain xj v where res: "res = (xj, v)" by (cases res) auto
    have ex': "extrapolate (samplingpath (contourpath s)) (starti + 1 * sign) = Inr (xj, v)"
      using ex Inr res by simp
    let ?vr = "reflected_direction gradient xj (smul (real_of_int sign) v)"
    have vr: "reverse gradient xj (smul (real_of_int sign) v) = Inr ?vr" by (rule rv)
    show ?thesis
    proof (cases "Lmin cp < lik xj")
      case True
      then have a1: "add_if_above_threshold (contourpath s) (starti + 1 * sign) xj v
          = (True, cp\<lparr>ncalls := ncalls cp + 1,
                        samplingpath := add sp (starti + sign) xj v (lik xj)\<rparr>)"
        by (simp add: add_if_above_threshold_def Let_def cp_def sp_def lik_def)
      have "expand_onestep gradient s fwd
                    = Inr (True, s\<lparr>contourpath :=
                             cp\<lparr>ncalls := ncalls cp + 1,
                                samplingpath := add sp (starti + sign) xj v (lik xj)\<rparr>\<rparr>)"
        unfolding expand_onestep_def Let_def sign_def[symmetric]
        using mx mn ex' a1 by (cases fwd) simp_all
      then show ?thesis using Inr res True by simp
    next
      case False
      then have a1: "add_if_above_threshold (contourpath s) (starti + 1 * sign) xj v
          = (False, cp\<lparr>ncalls := ncalls cp + 1\<rparr>)"
        by (simp add: add_if_above_threshold_def Let_def cp_def sp_def lik_def)
      show ?thesis
      proof (cases "extrapolate_ahead sign xj (smul (real_of_int sign) ?vr)")
        case e2: (Inl e)
        have "expand_onestep gradient s fwd = Inl e"
          unfolding expand_onestep_def Let_def sign_def[symmetric]
          using mx mn ex' a1 vr e2 by (cases fwd) simp_all
        then show ?thesis using Inr res False e2 by simp
      next
        case e2: (Inr res2)
        obtain xk vk where res2: "res2 = (xk, vk)" by (cases res2) auto
        have xk: "extrapolate_ahead sign xj (smul (real_of_int sign) ?vr) = Inr (xk, vk)"
          using e2 res2 by simp
        show ?thesis
        proof (cases "Lmin cp < lik xk")
          case True
          then have a2: "add_if_above_threshold (cp\<lparr>ncalls := ncalls cp + 1\<rparr>)
                           (starti + 1 * sign) xk vk
              = (True, cp\<lparr>ncalls := ncalls cp + 2,
                            samplingpath := add sp (starti + sign) xk vk (lik xk)\<rparr>)"
            by (simp add: add_if_above_threshold_def Let_def cp_def sp_def lik_def)
          have "expand_onestep gradient s fwd
                  = Inr (True, s\<lparr>nreflections := nreflections s + 1,
                           contourpath :=
                             cp\<lparr>ncalls := ncalls cp + 2,
                                samplingpath := add sp (starti + sign) xk vk (lik xk)\<rparr>\<rparr>)"
            unfolding expand_onestep_def Let_def sign_def[symmetric]
            using mx mn ex' a1 a2 vr xk by (cases fwd) simp_all
          then show ?thesis using Inr res False xk True by simp
        next
          case nk: False
          then have a2: "add_if_above_threshold (cp\<lparr>ncalls := ncalls cp + 1\<rparr>)
                           (starti + 1 * sign) xk vk
              = (False, cp\<lparr>ncalls := ncalls cp + 2\<rparr>)"
            by (simp add: add_if_above_threshold_def Let_def cp_def sp_def lik_def)
          have sp2: "samplingpath (cp\<lparr>ncalls := ncalls cp + 2\<rparr>) = sp"
            by (simp add: cp_def sp_def)
          have "expand_onestep gradient s fwd
                  = Inr (False, s\<lparr>nreflections := nreflections s + 1,
                           contourpath :=
                             cp\<lparr>ncalls := ncalls cp + 2,
                                samplingpath :=
                                  (if fwd then sp\<lparr>fwd_possible := False\<rparr>
                                   else sp\<lparr>rwd_possible := False\<rparr>)\<rparr>\<rparr>)"
            unfolding expand_onestep_def Let_def sign_def[symmetric]
            using mx mn ex' a1 a2 vr xk sp2 by (cases fwd) simp_all
          then show ?thesis using Inr res False xk nk by simp
        qed
      qed
    qed
  qed
  show ?thesis
    by (intro exI conjI) (rule fr, rule body)
qed

theorem expand_onestep_two_attempts_witness:
  "well_formed (samplingpath (contourpath example_sampler)) \<and>
   unit_normals example_gradient \<and>
   extrapolate_ahead 1 [1 / 4] [1 / 4] = Inr ([1 / 2], [1 / 4]) \<and>
   reflected_direction example_gradient [1 / 2] (smul 1 [1 / 4]) = [- (1 / 4)] \<and>
   extrapolate_ahead 1 [1 / 2] (smul 1 [- (1 / 4)]) = Inr ([1 / 4], [- (1 / 4)]) \<and>
   expand_onestep example_gradient example_sampler True
     = Inr (False, example_sampler\<lparr>nreflections := 1,
              contourpath := example_contour\<lparr>ncalls := 2,
                samplingpath := (reset [1 / 4] [1 / 4] 1)\<lparr>fwd_possible := False\<rparr>\<rparr>\<rparr>)"
proof -
  have wf: "well_formed (samplingpath (contourpath example_sampler))"
    by (simp add: well_formed_def example_sampler_def example_contour_def reset_def)
  note g = unit_normals_example
  have fr: "max_point (points (samplingpath (contourpath example_sampler)))
              = Some (0, [1 / 4], [1 / 4], 1)"
    by (simp add: example_sampler_def example_contour_def reset_def)
  have e1: "extrapolate_ahead 1 [1 / 4] [1 / 4] = Inr ([1 / 2], [1 / 4])" by code_simp
  have rv: "reflected_direction example_gradient [1 / 2] (smul 1 [1 / 4]) = [- (1 / 4)]"
    by (simp add: reflected_direction_def example_gradient_def smul_def reflect_def vsub_def
        vmul_def)
  have e2: "extrapolate_ahead 1 [1 / 2] (smul 1 [- (1 / 4)]) = Inr ([1 / 4], [- (1 / 4)])"
    by code_simp
  have l1: "\<not> Lmin (contourpath example_sampler)
              < likelihood (contourpath example_sampler)
                  (transform (contourpath example_sampler) [1 / 2])"
    by (simp add: example_sampler_def example_contour_def)
  have l2: "\<not> Lmin (contourpath example_sampler)
              < likelihood (contourpath example_sampler)
                  (transform (contourpath example_sampler) [1 / 4])"
    by (simp add: example_sampler_def example_contour_def)
  have c: "contourpath example_sampler = example_contour"
    "samplingpath example_contour = reset [1 / 4] [1 / 4] 1" "ncalls example_contour = 0"
    "nreflections example_sampler = 0"
    by (simp_all add: example_sampler_def example_contour_def)
  from expand_onestep_two_attempts[OF wf g, of True]
  have "expand_onestep example_gradient example_sampler True
     = Inr (False, example_sampler\<lparr>nreflections := 1,
              contourpath := example_contour\<lparr>ncalls := 2,
                samplingpath := (reset [1 / 4] [1 / 4] 1)\<lparr>fwd_possible := False\<rparr>\<rparr>\<rparr>)"
    using fr e1 rv e2 l1 l2 by (simp add: c)
  with wf g e1 rv e2 show ?thesis by simp
qed

section \<open>The reflecting traversal can be retraced\<close>

lemma reflected_irrelevant:
  "w = None \<Longrightarrow> lswr_loop x d tleft w r = lswr_loop x d tleft w r'"
proof (induction x d tleft w r arbitrary: r' rule: lswr_loop.induct)
  case (1 x d tleft w r)
  show ?case
  proof (cases "nearest_box_intersection_line x d True")
    case (Inl e)
    then show ?thesis by (simp add: lswr_loop.simps[of x d tleft])
  next
    case (Inr res)
    obtain p t i where res: "res = (p, t, i)" by (cases res) auto
    show ?thesis
    proof (cases "0 \<le> t \<and> \<not> tleft \<le> t")
      case True
      then have "lswr_loop p (update_at i (\<lambda>a d. d * (- 1)) d) (tleft - t) None r
               = lswr_loop p (update_at i (\<lambda>a d. d * (- 1)) d) (tleft - t) None r'"
        using "1.IH"(1)[OF Inr res[symmetric] refl _ _ "1.prems", of r'] "1.prems" by simp
      then show ?thesis
        using Inr res True "1.prems" by (simp add: lswr_loop.simps[of x d tleft])
    next
      case False
      then show ?thesis
        using Inr res "1.prems" by (auto simp: lswr_loop.simps[of x d tleft])
    qed
  qed
qed

lemma walk_stop:
  assumes "nearest_box_intersection_line x d True = Inr (p, t, i)" "0 \<le> t" "tleft \<le> t"
    and "in_cube (vadd x (smul tleft d))"
  shows "walk x d tleft = Inr (vadd x (smul tleft d), d)"
proof -
  have "list_all (\<lambda>x. 0 \<le> x) (vadd x (smul tleft d))" "list_all (\<lambda>x. x \<le> 1) (vadd x (smul tleft d))"
    using assms(4) by (simp_all add: in_cube_nth list_all_length)
  then show ?thesis
    using assms(1-3) unfolding walk_def by (subst lswr_loop.simps) (simp add: Let_def)
qed

lemma walk_bounce:
  assumes "nearest_box_intersection_line x d True = Inr (p, t, i)" "0 \<le> t" "t < tleft"
  shows "walk x d tleft = walk p (flip_axes i d) (tleft - t)"
  using assms unfolding walk_def flip_axes_def by (subst lswr_loop.simps) simp

lemma crossing_shift: "d \<noteq> 0 \<Longrightarrow> crossing (x + t * d) d = crossing x d - t"
  by (cases "0 < d") (simp_all add: crossing_pos crossing_neg field_simps)

lemma crossing_shift_back: "d \<noteq> 0 \<Longrightarrow> crossing (x + t * d) (- d) = crossing x (- d) + t"
  using crossing_shift[of "- d" x "- t"] by simp

lemma crossing_at_exit: "d \<noteq> 0 \<Longrightarrow> crossing (if 0 < d then 1 else 0) d = 0"
  by (cases "0 < d") (simp_all add: crossing_pos crossing_neg)

lemma nbil_fwd_filter:
  assumes "nearest_box_intersection_line x d True = Inr (p, t, i)"
  shows "i = filter (\<lambda>a. d ! a \<noteq> 0 \<and> crossing (x ! a) (d ! a) = t) [0..<length x]"
proof -
  have len: "length x = length d" by (rule nbil_fwd_InrD(1)[OF assms])
  from assms have "i = filter (\<lambda>i. map2 (axis_candidate True) x d ! i = Some t)
                        [0..<length (map2 (axis_candidate True) x d)]"
    by (auto simp: nearest_box_intersection_line_def Let_def split: if_splits option.splits)
  also have "\<dots> = filter (\<lambda>a. d ! a \<noteq> 0 \<and> crossing (x ! a) (d ! a) = t) [0..<length x]"
    using len by (intro filter_cong) (auto simp: axis_candidate_fwd)
  finally show ?thesis .
qed

lemma nbil_fwd_eq:
  assumes len: "length d = length x" and cube: "in_cube x"
    and le: "\<forall>a<length x. d ! a \<noteq> 0 \<longrightarrow> t \<le> crossing (x ! a) (d ! a)"
    and ex: "\<exists>a<length x. d ! a \<noteq> 0 \<and> crossing (x ! a) (d ! a) = t"
  shows "nearest_box_intersection_line x d True
           = Inr (vadd x (smul t d), t,
                  filter (\<lambda>a. d ! a \<noteq> 0 \<and> crossing (x ! a) (d ! a) = t) [0..<length x])"
proof -
  have nz: "\<exists>a<length x. d ! a \<noteq> 0" using ex by blast
  from nbil_fwd_total[OF len[symmetric] cube nz]
  obtain p t' i where n: "nearest_box_intersection_line x d True = Inr (p, t', i)" and t0: "0 \<le> t'"
    by blast
  note D = nbil_fwd_InrD[OF n]
  have "t' \<le> t" using D(3) ex by auto
  moreover have "t \<le> t'" using D(4) le by auto
  ultimately have tt: "t' = t" by simp
  note P = nbil_point[OF n t0]
  have "p = vadd x (smul t d)"
    using P(1,2) len tt by (intro nth_equalityI) (simp_all add: length_vadd length_smul nth_vadd nth_smul)
  then show ?thesis using n tt nbil_fwd_filter[OF n] by simp
qed

lemma advance_in_cube:
  assumes len: "length w = length q" and cube: "in_cube q"
    and le: "\<forall>b<length q. w ! b \<noteq> 0 \<longrightarrow> s \<le> crossing (q ! b) (w ! b)" and s: "0 \<le> s"
  shows "in_cube (vadd q (smul s w))"
  unfolding in_cube_nth
proof (intro allI impI)
  fix b assume "b < length (vadd q (smul s w))"
  then have b: "b < length q" using len by (simp add: length_vadd length_smul)
  have nb: "vadd q (smul s w) ! b = q ! b + s * w ! b"
    using b len by (simp add: nth_vadd nth_smul length_smul)
  have qb: "0 \<le> q ! b" "q ! b \<le> 1" using cube b by (simp_all add: in_cube_nth)
  show "0 \<le> vadd q (smul s w) ! b \<and> vadd q (smul s w) ! b \<le> 1"
  proof (cases "w ! b = 0")
    case True
    then show ?thesis using nb qb by simp
  next
    case False
    have "s \<le> crossing (q ! b) (w ! b)" using le b False by simp
    then show ?thesis using axis_advance(1,2)[OF False qb s] nb by simp
  qed
qed

lemma walk_straight:
  assumes len: "length w = length q" and cube: "in_cube q"
    and n: "nearest_box_intersection_line q w True = Inr (pq, Tq, I)"
    and a: "0 \<le> a" "a \<le> Tq" and r: "0 \<le> r"
  shows "walk q w (a + r) = walk (vadd q (smul a w)) w r"
proof -
  note D = nbil_fwd_InrD[OF n]
  let ?o = "vadd q (smul a w)"
  have ol: "length ?o = length q" using len by (simp add: length_vadd length_smul)
  have on: "?o ! b = q ! b + a * w ! b" if "b < length q" for b
    using that len by (simp add: nth_vadd nth_smul length_smul)
  have T0: "0 \<le> Tq" using a by simp
  have lea: "\<forall>b<length q. w ! b \<noteq> 0 \<longrightarrow> a \<le> crossing (q ! b) (w ! b)"
    using D(3) a(2) by fastforce
  have oc: "in_cube ?o" by (rule advance_in_cube[OF len cube lea a(1)])
  have sh: "crossing (?o ! b) (w ! b) = crossing (q ! b) (w ! b) - a"
    if "b < length q" "w ! b \<noteq> 0" for b
    using that on crossing_shift[of "w ! b" "q ! b" a] by simp
  have le': "\<forall>b<length ?o. w ! b \<noteq> 0 \<longrightarrow> Tq - a \<le> crossing (?o ! b) (w ! b)"
    using D(3) sh ol by fastforce
  have ex': "\<exists>b<length ?o. w ! b \<noteq> 0 \<and> crossing (?o ! b) (w ! b) = Tq - a"
    using D(4) sh ol by fastforce
  have no: "nearest_box_intersection_line ?o w True
      = Inr (vadd ?o (smul (Tq - a) w), Tq - a,
             filter (\<lambda>b. w ! b \<noteq> 0 \<and> crossing (?o ! b) (w ! b) = Tq - a) [0..<length ?o])"
    using nbil_fwd_eq[OF _ oc le' ex'] len ol by simp
  have nq: "nearest_box_intersection_line q w True
      = Inr (vadd q (smul Tq w), Tq,
             filter (\<lambda>b. w ! b \<noteq> 0 \<and> crossing (q ! b) (w ! b) = Tq) [0..<length q])"
    using nbil_fwd_eq[OF len cube D(3,4)] .
  have veq: "vadd ?o (smul c w) = vadd q (smul (a + c) w)" for c
    using len on ol
    by (intro nth_equalityI) (simp_all add: length_vadd length_smul nth_vadd nth_smul algebra_simps)
  have ieq: "filter (\<lambda>b. w ! b \<noteq> 0 \<and> crossing (?o ! b) (w ! b) = Tq - a) [0..<length ?o]
           = filter (\<lambda>b. w ! b \<noteq> 0 \<and> crossing (q ! b) (w ! b) = Tq) [0..<length q]"
    unfolding ol using sh by (intro filter_cong refl) auto
  show ?thesis
  proof (cases "a + r \<le> Tq")
    case True
    have ler: "\<forall>b<length q. w ! b \<noteq> 0 \<longrightarrow> a + r \<le> crossing (q ! b) (w ! b)"
      using D(3) True by fastforce
    have c1: "in_cube (vadd q (smul (a + r) w))"
      using advance_in_cube[OF len cube ler] a(1) r by simp
    have c2: "in_cube (vadd ?o (smul r w))" using c1 veq[of r] by simp
    have "walk q w (a + r) = Inr (vadd q (smul (a + r) w), w)"
      by (rule walk_stop[OF nq T0 True c1])
    moreover have "walk ?o w r = Inr (vadd ?o (smul r w), w)"
      using walk_stop[OF no _ _ c2] a(2) True by simp
    ultimately show ?thesis using veq[of r] by simp
  next
    case False
    then have lt: "Tq < a + r" by simp
    have "walk q w (a + r)
        = walk (vadd q (smul Tq w))
            (flip_axes (filter (\<lambda>b. w ! b \<noteq> 0 \<and> crossing (q ! b) (w ! b) = Tq) [0..<length q]) w)
            (a + r - Tq)"
      by (rule walk_bounce[OF nq T0 lt])
    moreover have "walk ?o w r
        = walk (vadd ?o (smul (Tq - a) w))
            (flip_axes (filter (\<lambda>b. w ! b \<noteq> 0 \<and> crossing (?o ! b) (w ! b) = Tq - a) [0..<length ?o]) w)
            (r - (Tq - a))"
      using walk_bounce[OF no] a(2) lt by simp
    moreover have "vadd ?o (smul (Tq - a) w) = vadd q (smul Tq w)" using veq[of "Tq - a"] by simp
    moreover have "r - (Tq - a) = a + r - Tq" by simp
    ultimately show ?thesis using ieq by simp
  qed
qed

lemma walk_back:
  assumes len: "length d = length x" and cube: "in_cube x"
    and nz: "\<exists>a<length x. d ! a \<noteq> 0"
    and a: "0 \<le> a" and qc: "in_cube (vadd x (smul a d))" and r: "0 \<le> r"
  shows "walk (vadd x (smul a d)) (vneg d) (a + r) = walk x (vneg d) r"
proof -
  let ?q = "vadd x (smul a d)"
  have ql: "length ?q = length x" using len by (simp add: length_vadd length_smul)
  have qn: "?q ! b = x ! b + a * d ! b" if "b < length x" for b
    using that len by (simp add: nth_vadd nth_smul length_smul)
  have nl: "length ?q = length (vneg d)" using ql len by (simp add: length_vneg)
  have nnz: "\<exists>b<length ?q. vneg d ! b \<noteq> 0" using nz ql len by (auto simp: nth_vneg)
  from nbil_fwd_total[OF nl qc nnz]
  obtain pq Tq I where n: "nearest_box_intersection_line ?q (vneg d) True = Inr (pq, Tq, I)"
    by blast
  from nbil_fwd_InrD(4)[OF n] obtain b where
    b: "b < length x" "vneg d ! b \<noteq> 0" "crossing (?q ! b) (vneg d ! b) = Tq" using ql by auto
  have db: "d ! b \<noteq> 0" "vneg d ! b = - d ! b" using b(1,2) len by (simp_all add: nth_vneg)
  have "Tq = crossing (x ! b) (- d ! b) + a"
    using b(3) db qn[OF b(1)] crossing_shift_back[OF db(1), of "x ! b" a] by simp
  moreover have "0 \<le> crossing (x ! b) (- d ! b)"
    using crossing_nonneg[of "- d ! b" "x ! b"] db(1) cube b(1) by (simp add: in_cube_nth)
  ultimately have aT: "a \<le> Tq" by simp
  have home: "vadd ?q (smul a (vneg d)) = x"
    using len ql qn
    by (intro nth_equalityI)
      (simp_all add: length_vadd length_smul length_vneg nth_vadd nth_smul nth_vneg)
  from walk_straight[OF nl[symmetric] qc n a aT r] home show ?thesis by simp
qed

lemma length_flip_axes: "length (flip_axes i d) = length d"
  by (simp add: flip_axes_def length_update_at)

lemma nth_flip_axes: "a < length d \<Longrightarrow> flip_axes i d ! a = (if a \<in> set i then - d ! a else d ! a)"
  by (simp add: flip_axes_def nth_update_at)

lemma vadd_smul_0: "length w = length q \<Longrightarrow> vadd q (smul 0 w) = q"
  by (intro nth_equalityI) (simp_all add: length_vadd length_smul nth_vadd nth_smul)

lemma turn_at_wall:
  assumes n: "nearest_box_intersection_line x d True = Inr (p1, t, I)"
    and t: "0 < t" and s: "0 < s"
  shows "walk p1 (vneg (flip_axes I d)) s = walk p1 (vneg d) s"
proof -
  note D = nbil_fwd_InrD[OF n]
  note P = nbil_point[OF n less_imp_le[OF t]]
  let ?w = "vneg (flip_axes I d)"
  have cube: "in_cube x" using D(2) by (simp add: in_cube_nth)
  have pc: "in_cube p1" unfolding in_cube_nth P(1) using P(2) by blast
  have wl: "length ?w = length p1" using P(1) D(1) by (simp add: length_vneg length_flip_axes)
  have wI: "?w ! b = d ! b" if "b \<in> set I" for b
    using that D(1,5) by (simp add: nth_vneg length_flip_axes nth_flip_axes)
  have wN: "?w ! b = - d ! b" if "b < length x" "b \<notin> set I" for b
    using that D(1) by (simp add: nth_vneg length_flip_axes nth_flip_axes)
  have cI: "crossing (p1 ! b) (?w ! b) = 0" if "b \<in> set I" for b
  proof -
    have "d ! b \<noteq> 0" using that D(5) by simp
    then show ?thesis using wI[OF that] P(3) that crossing_at_exit[of "d ! b"] by simp
  qed
  have cN: "0 < crossing (p1 ! b) (?w ! b)" if "b < length x" "b \<notin> set I" "d ! b \<noteq> 0" for b
  proof -
    have "0 \<le> crossing (x ! b) (- d ! b)"
      using crossing_nonneg[of "- d ! b" "x ! b"] that cube by (simp add: in_cube_nth)
    then show ?thesis
      using wN[OF that(1,2)] P(2) that(1) crossing_shift_back[OF that(3), of "x ! b" t] t by simp
  qed
  have le: "\<forall>b<length p1. ?w ! b \<noteq> 0 \<longrightarrow> 0 \<le> crossing (p1 ! b) (?w ! b)"
    using crossing_nonneg pc by (simp add: in_cube_nth)
  from D(4,5) obtain b0 where b0: "b0 \<in> set I" "b0 < length x" "d ! b0 \<noteq> 0" by auto
  have ex: "\<exists>b<length p1. ?w ! b \<noteq> 0 \<and> crossing (p1 ! b) (?w ! b) = 0"
    using b0 wI[OF b0(1)] cI[OF b0(1)] P(1) by auto
  let ?F = "filter (\<lambda>b. ?w ! b \<noteq> 0 \<and> crossing (p1 ! b) (?w ! b) = 0) [0..<length p1]"
  have nb: "nearest_box_intersection_line p1 ?w True = Inr (vadd p1 (smul 0 ?w), 0, ?F)"
    by (rule nbil_fwd_eq[OF wl pc le ex])
  have F: "b \<in> set ?F \<longleftrightarrow> b \<in> set I" if "b < length x" for b
  proof (cases "b \<in> set I")
    case True
    then have "d ! b \<noteq> 0" using D(5) by simp
    then show ?thesis using True wI[OF True] cI[OF True] that P(1) by simp
  next
    case False
    show ?thesis
    proof (cases "d ! b = 0")
      case True
      then show ?thesis using False wN[OF that False] by simp
    next
      case nz: False
      then show ?thesis using False cN[OF that False nz] by simp
    qed
  qed
  have fl: "flip_axes ?F ?w = vneg d"
  proof (rule nth_equalityI)
    show "length (flip_axes ?F ?w) = length (vneg d)"
      by (simp add: length_flip_axes length_vneg)
    fix b assume "b < length (flip_axes ?F ?w)"
    then have b: "b < length x" using D(1) by (simp add: length_flip_axes length_vneg)
    then have bw: "b < length ?w" using wl P(1) by simp
    show "flip_axes ?F ?w ! b = vneg d ! b"
    proof (cases "b \<in> set I")
      case True
      then show ?thesis
        using nth_flip_axes[OF bw, of ?F] F[OF b] wI[OF True] b D(1) by (simp add: nth_vneg)
    next
      case False
      then show ?thesis
        using nth_flip_axes[OF bw, of ?F] F[OF b] wN[OF b False] b D(1) by (simp add: nth_vneg)
    qed
  qed
  have "walk p1 ?w s = walk (vadd p1 (smul 0 ?w)) (flip_axes ?F ?w) (s - 0)"
    by (rule walk_bounce[OF nb order_refl s])
  then show ?thesis using fl vadd_smul_0[OF wl] by simp
qed

lemma walk_reverse:
  assumes "w = None" and "lswr_loop x d tleft w rr = Inr (p, d')" and "length d = length x"
    and "heading_in x d" and "0 \<le> tleft" and "0 \<le> r"
  shows "walk p (vneg d') (tleft + r) = walk x (vneg d) r"
  using assms
proof (induction x d tleft w rr arbitrary: r rule: lswr_loop.induct)
  case (1 x d tleft w rr)
  note w = "1.prems"(1) and run = "1.prems"(2) and len = "1.prems"(3)
    and hd = "1.prems"(4) and tl0 = "1.prems"(5) and r0 = "1.prems"(6)
  obtain p1 t I where n: "nearest_box_intersection_line x d True = Inr (p1, t, I)"
  proof (cases "nearest_box_intersection_line x d True")
    case (Inl e)
    then show ?thesis using run by (simp add: lswr_loop.simps[of x d tleft])
  next
    case (Inr res)
    then show ?thesis using that by (cases res) auto
  qed
  note D = nbil_fwd_InrD[OF n]
  have cube: "in_cube x" using D(2) by (simp add: in_cube_nth)
  have nz: "\<exists>a<length x. d ! a \<noteq> 0" using D(4) by blast
  have tpos: "0 < t" using D(4) hd by (auto simp: heading_in_def)
  note P = nbil_point[OF n less_imp_le[OF tpos]]
  show ?case
  proof (cases "tleft \<le> t")
    case True
    have res: "p = vadd x (smul tleft d) \<and> d' = d \<and> in_cube (vadd x (smul tleft d))"
      using run n tpos True
      by (auto simp: lswr_loop.simps[of x d tleft] Let_def in_cube_def list_all_iff
          split: if_splits)
    from walk_back[OF len cube nz tl0 _ r0] res show ?thesis by simp
  next
    case False
    let ?d1 = "update_at I (\<lambda>a d. d * (- 1)) d"
    have d1: "?d1 = flip_axes I d" by (simp add: flip_axes_def)
    have rec: "lswr_loop p1 ?d1 (tleft - t) None rr = Inr (p, d')"
      using run n tpos False w by (simp add: lswr_loop.simps[of x d tleft])
    have l1: "length ?d1 = length p1" using P(1) len by (simp add: length_update_at)
    have h1: "heading_in p1 ?d1"
      unfolding heading_in_def
    proof (intro allI impI)
      fix b assume b: "b < length p1" and m: "?d1 ! b \<noteq> 0"
      then have bx: "b < length x" "b < length d" using P(1) len by simp_all
      have db: "d ! b \<noteq> 0" using m bx by (auto simp: nth_update_at split: if_splits)
      show "0 < crossing (p1 ! b) (?d1 ! b)"
      proof (cases "b \<in> set I")
        case True
        then show ?thesis
          using P(3) bx crossing_after_reflect[OF db] db by (simp add: nth_update_at)
      next
        case False
        then have "crossing (x ! b) (d ! b) \<noteq> t" using D(5) bx db by simp
        moreover have "t \<le> crossing (x ! b) (d ! b)" using D(3) bx db by simp
        ultimately show ?thesis
          using False P(2) bx crossing_shift[OF db, of "x ! b" t] by (simp add: nth_update_at)
      qed
    qed
    have "walk p (vneg d') ((tleft - t) + (t + r)) = walk p1 (vneg ?d1) (t + r)"
      using "1.IH"(1)[OF n refl refl _ False w refl rec l1 h1, of "t + r"] tpos False r0 by simp
    also have "\<dots> = walk p1 (vneg d) (t + r)"
      unfolding d1 using turn_at_wall[OF n tpos, of "t + r"] tpos r0 by simp
    also have "\<dots> = walk x (vneg d) r"
    proof -
      have pe: "p1 = vadd x (smul t d)"
        using P(1,2) len
        by (intro nth_equalityI) (simp_all add: length_vadd length_smul nth_vadd nth_smul)
      have pc: "in_cube p1" unfolding in_cube_nth P(1) using P(2) by blast
      from walk_back[OF len cube nz less_imp_le[OF tpos] _ r0] pc pe show ?thesis by simp
    qed
    finally show ?thesis by (simp add: algebra_simps)
  qed
qed

lemma vneg_vneg: "vneg (vneg d) = d"
  by (simp add: vneg_def o_def)

lemma interior_in_cube: "interior x \<Longrightarrow> in_cube x"
  by (auto simp: interior_def in_cube_def list_all_iff less_imp_le)

lemma interior_heading_in: "interior x \<Longrightarrow> heading_in x d"
  unfolding heading_in_def
proof (intro allI impI)
  fix a assume x: "interior x" and a: "a < length x" and d: "d ! a \<noteq> 0"
  have "0 < x ! a" "x ! a < 1" using x a by (simp_all add: interior_def list_all_length)
  then show "0 < crossing (x ! a) (d ! a)"
  proof (cases "0 < d ! a")
    case True
    then show ?thesis using \<open>x ! a < 1\<close> by (simp add: crossing_pos)
  next
    case False
    then have "d ! a < 0" using d by simp
    then show ?thesis using \<open>0 < x ! a\<close> by (simp add: crossing_neg divide_pos_neg)
  qed
qed

lemma walk_zero:
  assumes "length w = length x" "in_cube x" "\<exists>a<length x. w ! a \<noteq> 0"
  shows "walk x w 0 = Inr (x, w)"
proof -
  from nbil_fwd_total[OF assms(1)[symmetric] assms(2,3)]
  obtain p t i where n: "nearest_box_intersection_line x w True = Inr (p, t, i)" "0 \<le> t"
    by blast
  have "in_cube (vadd x (smul 0 w))" using assms(1,2) by (simp add: vadd_smul_0)
  from walk_stop[OF n(1) n(2) n(2) this] show ?thesis using assms(1) by (simp add: vadd_smul_0)
qed

lemma loop_Inr_shape:
  assumes "lswr_loop x d tleft w r = Inr (p, d')"
  shows "length d = length x \<and> (\<exists>a<length x. d ! a \<noteq> 0)"
proof (cases "nearest_box_intersection_line x d True")
  case (Inl e)
  then show ?thesis using assms by (simp add: lswr_loop.simps[of x d tleft])
next
  case (Inr res)
  obtain p1 t i where "res = (p1, t, i)" by (cases res) auto
  with Inr nbil_fwd_InrD(1,4)[of x d p1 t i] show ?thesis by auto
qed

text \<open>
  Claim C4.  From a point \<open>x\<close> strictly inside the unit cube, with any direction \<open>v\<close> and
  any \<open>t\<close>: if \<^verbatim>\<open>linear_steps_with_reflection\<close> from \<open>(x, v)\<close> by \<open>t\<close> returns the point
  \<open>x'\<close> and the direction \<open>v'\<close>, then from \<open>x'\<close> with the direction \<open>- v'\<close> by the same
  \<open>t\<close> it returns the point \<open>x\<close> with the direction \<open>- v\<close>.
\<close>

theorem round_trip:
  assumes "interior x" and "linear_steps_with_reflection x v t None = Inr (x', v')"
  shows "linear_steps_with_reflection x' (vneg v') t None = Inr (x, vneg v)"
proof (cases "t = 0")
  case True
  then show ?thesis using assms(2) by (simp add: linear_steps_with_reflection_def del: lswr_loop.simps)
next
  case nz: False
  note cube = interior_in_cube[OF assms(1)]
  show ?thesis
  proof (cases "t < 0")
    case True
    obtain d where
      run: "lswr_loop x (vneg v) (- t) None [] = Inr (x', d)" and v': "v' = vneg d"
    proof (cases "lswr_loop x (vneg v) (- t) None []")
      case (Inl e)
      then show ?thesis
        using assms(2) True by (simp add: linear_steps_with_reflection_def del: lswr_loop.simps)
    next
      case (Inr res)
      then show ?thesis
        using assms(2) True that
        by (cases res) (simp add: linear_steps_with_reflection_def del: lswr_loop.simps)
    qed
    from loop_Inr_shape[OF run] have sh: "length v = length x" "\<exists>a<length x. v ! a \<noteq> 0"
      by (auto simp: length_vneg nth_vneg)
    have "walk x' (vneg d) (- t + 0) = walk x (vneg (vneg v)) 0"
      using walk_reverse[OF refl run _ interior_heading_in[OF assms(1)], of 0] sh(1) True
      by (simp add: length_vneg)
    also have "\<dots> = Inr (x, v)"
      unfolding vneg_vneg by (rule walk_zero[OF sh(1) cube sh(2)])
    finally have "lswr_loop x' (vneg d) (- t) None [] = Inr (x, v)" by (simp add: walk_def del: lswr_loop.simps)
    then show ?thesis
      using True v' by (simp add: linear_steps_with_reflection_def vneg_vneg del: lswr_loop.simps)
  next
    case False
    with nz have pos: "0 < t" by simp
    from assms(2) pos have
      run: "lswr_loop x v t None (replicate (length x) False) = Inr (x', v')"
      by (simp add: linear_steps_with_reflection_def del: lswr_loop.simps)
    from loop_Inr_shape[OF run] have sh: "length v = length x" "\<exists>a<length x. v ! a \<noteq> 0"
      by auto
    have nsh: "length (vneg v) = length x" "\<exists>a<length x. vneg v ! a \<noteq> 0"
      using sh by (auto simp: length_vneg nth_vneg)
    have "walk x' (vneg v') (t + 0) = walk x (vneg v) 0"
      using walk_reverse[OF refl run sh(1) interior_heading_in[OF assms(1)], of 0] pos by simp
    also have "\<dots> = Inr (x, vneg v)" by (rule walk_zero[OF nsh(1) cube nsh(2)])
    finally have "lswr_loop x' (vneg v') t None [] = Inr (x, vneg v)" by (simp add: walk_def del: lswr_loop.simps)
    then have "lswr_loop x' (vneg v') t None (replicate (length x') False) = Inr (x, vneg v)"
      using reflected_irrelevant[OF refl, of x' "vneg v'" t "[]"] by (simp del: lswr_loop.simps)
    then show ?thesis using pos by (simp add: linear_steps_with_reflection_def del: lswr_loop.simps)
  qed
qed

theorem round_trip_witness:
  "interior [1 / 2, 1 / 4] \<and>
   linear_steps_with_reflection [1 / 2, 1 / 4] [3 / 8, 1] 3 None
     = Inr ([3 / 8, 3 / 4], [- (3 / 8), - 1]) \<and>
   linear_steps_with_reflection [3 / 8, 3 / 4] (vneg [- (3 / 8), - 1]) 3 None
     = Inr ([1 / 2, 1 / 4], vneg [3 / 8, 1])"
proof -
  have i: "interior [1 / 2, 1 / 4]" by (simp add: interior_def)
  have f: "linear_steps_with_reflection [1 / 2, 1 / 4] [3 / 8, 1] 3 None
             = Inr ([3 / 8, 3 / 4], [- (3 / 8), - 1])" by code_simp
  from round_trip[OF i f] i f show ?thesis by simp
qed

end
